theory Spec2Isabelle
  imports Complex_Main "HOL-Library.Code_Target_Nat"
begin

section \<open>JavaScript strings and numbers\<close>

text \<open>
  A JavaScript string is a sequence of UTF-16 code units. The converter handles code units
  beyond Latin-1 (the byte-order mark U+FEFF, the arrow U+2192, Vietnamese letters), so a
  string is a list of code units, each a natural number. \<open>asc\<close> turns an ASCII literal
  into such a list.
\<close>

type_synonym jsstring = "nat list"

definition asc :: "string \<Rightarrow> jsstring" where
  "asc s = map of_char s"

text \<open>\<open>\d\<close> of a regular expression without the unicode flag: the ASCII digits only.\<close>

definition isDigit :: "nat \<Rightarrow> bool" where
  "isDigit c \<longleftrightarrow> 48 \<le> c \<and> c \<le> 57"

text \<open>
  White space and line terminators of ECMAScript: what \<open>String.prototype.trim\<close> strips and
  what \<open>\s\<close> matches.
\<close>

definition isWhiteSpace :: "nat \<Rightarrow> bool" where
  "isWhiteSpace c \<longleftrightarrow>
     (9 \<le> c \<and> c \<le> 13) \<or> c = 32 \<or> c = 160 \<or> c = 5760 \<or> (8192 \<le> c \<and> c \<le> 8202) \<or>
     c = 8232 \<or> c = 8233 \<or> c = 8239 \<or> c = 8287 \<or> c = 12288 \<or> c = 65279"

text \<open>The line terminators, which \<open>.\<close> does not match.\<close>

definition isLineTerminator :: "nat \<Rightarrow> bool" where
  "isLineTerminator c \<longleftrightarrow> c = 10 \<or> c = 13 \<or> c = 8232 \<or> c = 8233"

definition trim :: "jsstring \<Rightarrow> jsstring" where
  "trim s = rev (dropWhile isWhiteSpace (rev (dropWhile isWhiteSpace s)))"

text \<open>\<open>s.padStart(n, c)\<close> and \<open>s.padEnd(n, c)\<close> for a one-character filler \<open>c\<close>.\<close>

definition padStart :: "nat \<Rightarrow> nat \<Rightarrow> jsstring \<Rightarrow> jsstring" where
  "padStart n c s = replicate (n - length s) c @ s"

definition padEnd :: "nat \<Rightarrow> nat \<Rightarrow> jsstring \<Rightarrow> jsstring" where
  "padEnd n c s = s @ replicate (n - length s) c"

text \<open>
  \<open>s.replace(a, b)\<close> with one-character strings \<open>a\<close> and \<open>b\<close>: a string pattern
  replaces the first occurrence only.
\<close>

fun replaceFirst :: "nat \<Rightarrow> nat \<Rightarrow> jsstring \<Rightarrow> jsstring" where
  "replaceFirst a b [] = []"
| "replaceFirst a b (x # xs) = (if x = a then b # xs else x # replaceFirst a b xs)"

text \<open>\<open>lines.join(sep)\<close>.\<close>

fun join :: "jsstring \<Rightarrow> jsstring list \<Rightarrow> jsstring" where
  "join sep [] = []"
| "join sep [l] = l"
| "join sep (l # ls) = l @ sep @ join sep ls"

subsection \<open>Regular expressions\<close>

text \<open>
  The regular expressions of the source are built from single-character classes in a row,
  greedy runs of one class, and a choice between two rows. A row of classes is matched at
  the start of a string by \<open>matchSeq\<close>, which returns the rest of the string behind the
  match. A matcher in general is a function from a string to the rest behind the match at
  its start, or \<open>None\<close> when the expression does not match there.
\<close>

datatype cclass = Digit | Lit nat | OneOf "nat list"

fun cmatch :: "cclass \<Rightarrow> nat \<Rightarrow> bool" where
  "cmatch Digit x = isDigit x"
| "cmatch (Lit c) x = (x = c)"
| "cmatch (OneOf cs) x = (x \<in> set cs)"

fun matchSeq :: "cclass list \<Rightarrow> jsstring \<Rightarrow> jsstring option" where
  "matchSeq [] s = Some s"
| "matchSeq (c # cs) [] = None"
| "matchSeq (c # cs) (x # xs) = (if cmatch c x then matchSeq cs xs else None)"

type_synonym matcher = "jsstring \<Rightarrow> jsstring option"

text \<open>A literal pattern: every character stands for itself.\<close>

definition lit :: "jsstring \<Rightarrow> matcher" where
  "lit pat = matchSeq (map Lit pat)"

text \<open>
  A letter under the flag \<open>i\<close>: the letter in either case. (Canonicalisation maps no
  character outside ASCII to an ASCII letter.)
\<close>

definition ci :: "string \<Rightarrow> cclass list" where
  "ci name = map (\<lambda>c. OneOf [of_char c, of_char c - 32]) name"

text \<open>\<open>a|b\<close>, and the two attempts of an optional part: the first that matches wins.\<close>

definition orElse :: "matcher \<Rightarrow> matcher \<Rightarrow> matcher" where
  "orElse m1 m2 s = (case m1 s of Some r \<Rightarrow> Some r | None \<Rightarrow> m2 s)"

text \<open>\<open>regex.test(s)\<close> for an expression that is not anchored: a match at some position.\<close>

fun existsMatch :: "matcher \<Rightarrow> jsstring \<Rightarrow> bool" where
  "existsMatch m [] = (m [] \<noteq> None)"
| "existsMatch m (x # xs) = (m (x # xs) \<noteq> None \<or> existsMatch m xs)"

text \<open>
  \<open>s.replace(regex, rep)\<close> with the flag \<open>g\<close>: the matches are found from left to
  right, none overlapping the one before, and each is replaced. After an empty match
  the search moves on by one character. (The replacement strings of the source hold no
  \<open>$\<close>, so they stand for themselves.)
\<close>

function replaceAll :: "matcher \<Rightarrow> jsstring \<Rightarrow> jsstring \<Rightarrow> jsstring" where
  "replaceAll m rep [] = (if m [] = None then [] else rep)"
| "replaceAll m rep (x # xs) =
     (case m (x # xs) of
        None \<Rightarrow> x # replaceAll m rep xs
      | Some r \<Rightarrow>
          if length r \<le> length xs then rep @ replaceAll m rep r
          else rep @ x # replaceAll m rep xs)"
  by pat_completeness auto
termination
  by (relation "measure (\<lambda>(m, rep, s). length s)") auto

text \<open>
  \<open>s.split(sep)\<close> for a separator that never matches the empty string: the pieces between
  the matches, found from left to right. \<open>cur\<close> is the piece read so far.
\<close>

function splitAcc :: "matcher \<Rightarrow> jsstring \<Rightarrow> jsstring \<Rightarrow> jsstring list" where
  "splitAcc m cur [] = [cur]"
| "splitAcc m cur (x # xs) =
     (case m (x # xs) of
        None \<Rightarrow> splitAcc m (cur @ [x]) xs
      | Some r \<Rightarrow>
          if length r \<le> length xs then cur # splitAcc m [] r
          else splitAcc m (cur @ [x]) xs)"
  by pat_completeness auto
termination
  by (relation "measure (\<lambda>(m, cur, s). length s)") auto

definition split :: "matcher \<Rightarrow> jsstring \<Rightarrow> jsstring list" where
  "split m s = splitAcc m [] s"

subsection \<open>Numbers\<close>

text \<open>
  \<open>Number.parseInt\<close> returns an integer or NaN and never throws; NaN is \<open>None\<close>.
  Integers are exact here, as JavaScript's doubles are up to \<open>2 ^ 53\<close>.
  Without a radix argument the string is read in base 10, or in base 16 after a prefix
  \<open>0x\<close> or \<open>0X\<close>; leading white space and a sign are skipped, and reading stops at the
  first character that is not a digit.
\<close>

definition digitsVal :: "jsstring \<Rightarrow> nat" where
  "digitsVal ds = foldl (\<lambda>acc d. 10 * acc + (d - 48)) 0 ds"

definition isHexDigit :: "nat \<Rightarrow> bool" where
  "isHexDigit c \<longleftrightarrow> isDigit c \<or> (65 \<le> c \<and> c \<le> 70) \<or> (97 \<le> c \<and> c \<le> 102)"

definition hexDigitVal :: "nat \<Rightarrow> nat" where
  "hexDigitVal c = (if isDigit c then c - 48 else if c \<le> 70 then c - 55 else c - 87)"

definition hexVal :: "jsstring \<Rightarrow> nat" where
  "hexVal ds = foldl (\<lambda>acc d. 16 * acc + hexDigitVal d) 0 ds"

definition parseMagnitude :: "jsstring \<Rightarrow> nat option" where
  "parseMagnitude s =
     (if take 2 s = [48, 120] \<or> take 2 s = [48, 88]
      then (let ds = takeWhile isHexDigit (drop 2 s) in if ds = [] then None else Some (hexVal ds))
      else (let ds = takeWhile isDigit s in if ds = [] then None else Some (digitsVal ds)))"

definition parseInt :: "jsstring \<Rightarrow> int option" where
  "parseInt str =
     (case dropWhile isWhiteSpace str of
        [] \<Rightarrow> None
      | c # r \<Rightarrow>
          if c = 45 then map_option (\<lambda>n. - int n) (parseMagnitude r)
          else if c = 43 then map_option int (parseMagnitude r)
          else map_option int (parseMagnitude (c # r)))"

text \<open>Decimal rendering of a number, as a template literal or \<open>toString()\<close> gives it.\<close>

fun natStr :: "nat \<Rightarrow> jsstring" where
  "natStr n = (if n < 10 then [48 + n] else natStr (n div 10) @ [48 + n mod 10])"

declare natStr.simps [simp del]

definition numToString :: "int option \<Rightarrow> jsstring" where
  "numToString x =
     (case x of
        None \<Rightarrow> asc ''NaN''
      | Some i \<Rightarrow> if i < 0 then 45 # natStr (nat (- i)) else natStr (nat i))"

text \<open>A comparison with NaN is false.\<close>

definition numGe :: "int option \<Rightarrow> int \<Rightarrow> bool" where
  "numGe x k = (case x of None \<Rightarrow> False | Some i \<Rightarrow> k \<le> i)"

section \<open>Timestamp Normalizer: \<open>parseSRTTime\<close>\<close>

text \<open>
  The head \<open>(\d{1,2}):(\d{2}):(\d{2})[.,]\<close> shared by every timestamp pattern of the source,
  matched at the start of a string. It returns the three captured digit groups and the rest
  of the string behind the separator. The greedy \<open>\d{1,2}\<close> first takes two digits and
  backtracks to one digit when the rest does not match behind two.
\<close>

definition tsHead :: "jsstring \<Rightarrow> (jsstring \<times> jsstring \<times> jsstring \<times> jsstring) option" where
  "tsHead s =
     (case matchSeq [Digit, Digit, Lit 58, Digit, Digit, Lit 58, Digit, Digit, OneOf [46, 44]] s of
        Some rest \<Rightarrow> Some (take 2 s, take 2 (drop 3 s), take 2 (drop 6 s), rest)
      | None \<Rightarrow>
          (case matchSeq [Digit, Lit 58, Digit, Digit, Lit 58, Digit, Digit, OneOf [46, 44]] s of
             Some rest \<Rightarrow> Some (take 1 s, take 2 (drop 2 s), take 2 (drop 5 s), rest)
           | None \<Rightarrow> None))"

text \<open>
  \<open>/(\d{1,2}):(\d{2}):(\d{2})[.,](\d{1,3})/\<close> at the start of a string: nothing follows the
  last group, so the greedy \<open>\d{1,3}\<close> keeps the first three digits of the digit run.
\<close>

definition timePatternAt :: "jsstring \<Rightarrow> (jsstring \<times> jsstring \<times> jsstring \<times> jsstring) option" where
  "timePatternAt s =
     (case tsHead s of
        None \<Rightarrow> None
      | Some (h, m, sec, rest) \<Rightarrow>
          (let ds = takeWhile isDigit rest
           in if ds = [] then None else Some (h, m, sec, take 3 ds)))"

text \<open>\<open>timeStr.match(timePattern)\<close>: the pattern is not anchored, the leftmost match wins.\<close>

fun timePatternMatch :: "jsstring \<Rightarrow> (jsstring \<times> jsstring \<times> jsstring \<times> jsstring) option" where
  "timePatternMatch [] = None"
| "timePatternMatch (c # cs) =
     (case timePatternAt (c # cs) of
        Some g \<Rightarrow> Some g
      | None \<Rightarrow> timePatternMatch cs)"

text \<open>The two errors thrown inside the \<open>try\<close> block of \<open>parseSRTTime\<close>.\<close>

datatype time_error = InvalidTimeFormat | InvalidTimeValues

definition parseSRTTime_try :: "jsstring \<Rightarrow> time_error + jsstring" where
  "parseSRTTime_try timeStr0 =
     (let timeStr = replaceFirst 44 46 (trim timeStr0)
      in case timePatternMatch timeStr of
           None \<Rightarrow> Inl InvalidTimeFormat
         | Some (g1, g2, g3, g4) \<Rightarrow>
             (let hours = parseInt g1;
                  minutes = parseInt g2;
                  seconds = parseInt g3;
                  milliseconds = parseInt (take 3 (padEnd 3 48 g4))
              in if numGe minutes 60 \<or> numGe seconds 60 \<or> numGe milliseconds 1000
                 then Inl InvalidTimeValues
                 else (let centiseconds = map_option (\<lambda>ms. ms div 10) milliseconds
                       in Inr (numToString hours @ [58] @
                               padStart 2 48 (numToString minutes) @ [58] @
                               padStart 2 48 (numToString seconds) @ [46] @
                               padStart 2 48 (numToString centiseconds)))))"

text \<open>The \<open>catch\<close> block turns either error into the sentinel timestamp.\<close>

definition parseSRTTime :: "jsstring \<Rightarrow> jsstring" where
  "parseSRTTime timeStr =
     (case parseSRTTime_try timeStr of
        Inl _ \<Rightarrow> asc ''0:00:00.00''
      | Inr t \<Rightarrow> t)"

section \<open>Encoding Fixer: \<open>fixEncodingArtifacts\<close>\<close>

text \<open>
  The substitution table \<open>encodingFixes\<close> maps a corrupted character sequence to the
  letter it stands for. The table literal of the source text is damaged (its quotation
  marks do not pair up), so the table is a parameter \<open>fixes\<close> of every function that uses
  it: an ordered list of pairs, in the order \<open>Object.entries\<close> enumerates them. Each key
  is compiled by \<open>new RegExp(wrong, "g")\<close>; the keys are letters and punctuation without
  any special character of regular expressions, so each key is a literal pattern, and no
  replacement holds a \<open>$\<close>.
\<close>

type_synonym fix_table = "(jsstring \<times> jsstring) list"

definition fixEncodingArtifacts :: "fix_table \<Rightarrow> jsstring \<Rightarrow> jsstring" where
  "fixEncodingArtifacts fixes text =
     foldl (\<lambda>fixedText (wrong, correct). replaceAll (lit wrong) correct fixedText) text fixes"

section \<open>Text Formatter: \<open>cleanAndFormatText\<close>\<close>

text \<open>
  \<open>/<i>.*<\/i>/i\<close>: an opening tag, then characters other than line terminators, then a
  closing tag. The closing tag holds no line terminator itself, so it must lie inside
  the run of such characters that follows the opening tag.
\<close>

definition italicPattern :: matcher where
  "italicPattern s =
     (case matchSeq (Lit 60 # ci ''i'' @ [Lit 62]) s of
        None \<Rightarrow> None
      | Some r \<Rightarrow>
          if existsMatch (matchSeq (Lit 60 # Lit 47 # ci ''i'' @ [Lit 62]))
               (takeWhile (\<lambda>c. \<not> isLineTerminator c) r)
          then Some r else None)"

text \<open>\<open>/<\/?i>/gi\<close>.\<close>

definition italicTag :: matcher where
  "italicTag =
     orElse (matchSeq (Lit 60 # Lit 47 # ci ''i'' @ [Lit 62])) (matchSeq (Lit 60 # ci ''i'' @ [Lit 62]))"

text \<open>
  \<open>/<\/?name[^>]*>/gi\<close>: behind the name the match runs up to the first \<open>>\<close>, through
  line breaks as well.
\<close>

definition upToGt :: matcher where
  "upToGt r = (case dropWhile (\<lambda>c. c \<noteq> 62) r of [] \<Rightarrow> None | g # rest \<Rightarrow> Some rest)"

definition thenM :: "matcher \<Rightarrow> matcher \<Rightarrow> matcher" where
  "thenM m1 m2 s = (case m1 s of None \<Rightarrow> None | Some r \<Rightarrow> m2 r)"

definition tagPattern :: "string \<Rightarrow> matcher" where
  "tagPattern name =
     orElse (thenM (matchSeq (Lit 60 # Lit 47 # ci name)) upToGt)
            (thenM (matchSeq (Lit 60 # ci name)) upToGt)"

definition htmlTags :: "string list" where
  "htmlTags = [''b'', ''u'', ''s'', ''em'', ''strong'', ''font'', ''span'', ''div'', ''p'']"

text \<open>\<open>/<br\s*\/?>/gi\<close>.\<close>

definition brTag :: matcher where
  "brTag =
     thenM (matchSeq (Lit 60 # ci ''br''))
       (\<lambda>r. orElse (matchSeq [Lit 47, Lit 62]) (matchSeq [Lit 62]) (dropWhile isWhiteSpace r))"

text \<open>\<open>/\s+/g\<close>.\<close>

definition whiteSpaceRun :: matcher where
  "whiteSpaceRun s =
     (case s of [] \<Rightarrow> None | c # r \<Rightarrow> if isWhiteSpace c then Some (dropWhile isWhiteSpace r) else None)"

definition htmlEntities :: "(jsstring \<times> jsstring) list" where
  "htmlEntities =
     [(asc ''&amp;'', [38]), (asc ''&lt;'', [60]), (asc ''&gt;'', [62]),
      (asc ''&quot;'', [34]), (asc ''&apos;'', [39]), (asc ''&#39;'', [39]),
      (asc ''&nbsp;'', [32]), (asc ''&mdash;'', [8212]), (asc ''&ndash;'', [8211]),
      (asc ''&hellip;'', [8230]), (asc ''&#225;'', [225]), (asc ''&#224;'', [224]),
      (asc ''&#7843;'', [7843]), (asc ''&#227;'', [227]), (asc ''&#7841;'', [7841]),
      (asc ''&#226;'', [226]), (asc ''&#7845;'', [7845]), (asc ''&#7847;'', [7847]),
      (asc ''&#7849;'', [7849]), (asc ''&#7851;'', [7851]), (asc ''&#7853;'', [7853]),
      (asc ''&#273;'', [273]), (asc ''&#233;'', [233]), (asc ''&#232;'', [232]),
      (asc ''&#7867;'', [7867]), (asc ''&#7869;'', [7869]), (asc ''&#7865;'', [7865]),
      (asc ''&#234;'', [234]), (asc ''&#7871;'', [7871]), (asc ''&#7873;'', [7873]),
      (asc ''&#7875;'', [7875]), (asc ''&#7877;'', [7877]), (asc ''&#7879;'', [7879]),
      (asc ''&#237;'', [237]), (asc ''&#236;'', [236]), (asc ''&#7881;'', [7881]),
      (asc ''&#297;'', [297]), (asc ''&#7883;'', [7883]), (asc ''&#243;'', [243]),
      (asc ''&#242;'', [242]), (asc ''&#7887;'', [7887]), (asc ''&#245;'', [245]),
      (asc ''&#7885;'', [7885]), (asc ''&#244;'', [244]), (asc ''&#7889;'', [7889]),
      (asc ''&#7891;'', [7891]), (asc ''&#7893;'', [7893]), (asc ''&#7895;'', [7895]),
      (asc ''&#7897;'', [7897]), (asc ''&#417;'', [417]), (asc ''&#7899;'', [7899]),
      (asc ''&#7901;'', [7901]), (asc ''&#7903;'', [7903]), (asc ''&#7905;'', [7905]),
      (asc ''&#7907;'', [7907]), (asc ''&#250;'', [250]), (asc ''&#249;'', [249]),
      (asc ''&#7911;'', [7911]), (asc ''&#361;'', [361]), (asc ''&#7909;'', [7909]),
      (asc ''&#432;'', [432]), (asc ''&#7913;'', [7913]), (asc ''&#7915;'', [7915]),
      (asc ''&#7917;'', [7917]), (asc ''&#7919;'', [7919]), (asc ''&#7921;'', [7921]),
      (asc ''&#253;'', [253]), (asc ''&#7923;'', [7923]), (asc ''&#7927;'', [7927]),
      (asc ''&#7929;'', [7929]), (asc ''&#7925;'', [7925])]"

text \<open>The ASS line break \<open>\N\<close>: a backslash and the letter N.\<close>

definition assBreak :: jsstring where
  "assBreak = [92, 78]"

text \<open>
  The steps of the formatter behind the encoding fixes, from the line breaks to the last
  \<open>trim\<close>: they return the cleaned text and the style name.
\<close>

definition cleanSteps :: "jsstring \<Rightarrow> jsstring \<times> jsstring" where
  "cleanSteps text0 =
     (let text = replaceAll (lit [13]) [10] (replaceAll (lit [13, 10]) [10] text0);
          italic = existsMatch italicPattern text;
          style = (if italic then asc ''Italic'' else asc ''Default'');
          text = (if italic then replaceAll italicTag [] text else text);
          text = foldl (\<lambda>t name. replaceAll (tagPattern name) [] t) text htmlTags;
          text = replaceAll brTag assBreak text;
          text = foldl (\<lambda>t (entity, char). replaceAll (lit entity) char t) text htmlEntities;
          text = replaceAll (lit [10]) assBreak text;
          lines = split (lit assBreak) text;
          cleanedLines = filter (\<lambda>line. line \<noteq> []) (map trim lines);
          text = trim (join assBreak cleanedLines)
      in (text, style))"

text \<open>The text that stands in for an empty result: the original, its white space collapsed.\<close>

definition collapsedOriginal :: "jsstring \<Rightarrow> jsstring" where
  "collapsedOriginal originalText = replaceAll whiteSpaceRun [32] (trim originalText)"

text \<open>
  The formatter returns the cleaned text and the style name. No step of its \<open>try\<close>
  block throws (every pattern is well formed), so its \<open>catch\<close> block is never entered
  and has no part in the model.
\<close>

definition cleanAndFormatText :: "fix_table \<Rightarrow> jsstring \<Rightarrow> jsstring \<times> jsstring" where
  "cleanAndFormatText fixes text0 =
     (if text0 = [] then ([], asc ''Default'')
      else
        (let originalText = text0;
             text = replaceAll (lit [65279]) [] text0;
             text = fixEncodingArtifacts fixes text;
             (text, style) = cleanSteps text
         in if text = []
            then (let text = collapsedOriginal originalText
                  in (if text = [] then asc ''[Empty subtitle]'' else text, style))
            else (text, style)))"

section \<open>Block Parser: \<open>parseSRTBlock\<close>\<close>

record SubtitleEntry =
  number :: "int option"
  start :: jsstring
  end_time :: jsstring
  text_cue :: jsstring
  style :: jsstring
  originalText :: jsstring

text \<open>
  One of the three \<open>timePatterns\<close>, with separator \<open>sep\<close>, at the start of a string:
  \<open>(\d{1,2}:\d{2}:\d{2}[.,]\d{1,3})\s*sep\s*(\d{1,2}:\d{2}:\d{2}[.,]\d{1,3})\<close>.
  The first \<open>\d{1,3}\<close> is followed by white space or the separator, so it matches only
  when the whole digit run has at most three digits; the second is followed by nothing
  and keeps the first three digits of its run. The two groups are the matched texts.
\<close>

definition timeRangeAt :: "jsstring \<Rightarrow> jsstring \<Rightarrow> (jsstring \<times> jsstring) option" where
  "timeRangeAt sep s =
     (case tsHead s of
        None \<Rightarrow> None
      | Some (h1, m1, s1, r1) \<Rightarrow>
          (let ds1 = takeWhile isDigit r1
           in if ds1 = [] \<or> 3 < length ds1 then None
              else
                (case lit sep (dropWhile isWhiteSpace (drop (length ds1) r1)) of
                   None \<Rightarrow> None
                 | Some r2 \<Rightarrow>
                     (let r3 = dropWhile isWhiteSpace r2
                      in case tsHead r3 of
                           None \<Rightarrow> None
                         | Some (h2, m2, s2, r4) \<Rightarrow>
                             (let ds2 = take 3 (takeWhile isDigit r4)
                              in if ds2 = [] then None
                                 else Some (take (length s - length r1 + length ds1) s,
                                            take (length r3 - length r4 + length ds2) r3))))))"

fun timeRangeMatch :: "jsstring \<Rightarrow> jsstring \<Rightarrow> (jsstring \<times> jsstring) option" where
  "timeRangeMatch sep [] = None"
| "timeRangeMatch sep (c # cs) =
     (case timeRangeAt sep (c # cs) of
        Some g \<Rightarrow> Some g
      | None \<Rightarrow> timeRangeMatch sep cs)"

text \<open>The separators of \<open>timePatterns\<close>: \<open>-->\<close>, the arrow U+2192, and a hyphen.\<close>

definition timePatterns :: "jsstring list" where
  "timePatterns = [[45, 45, 62], [8594], [45]]"

fun firstTimeMatch :: "jsstring list \<Rightarrow> jsstring \<Rightarrow> (jsstring \<times> jsstring) option" where
  "firstTimeMatch [] timeLine = None"
| "firstTimeMatch (pattern # patterns) timeLine =
     (case timeRangeMatch pattern timeLine of
        Some g \<Rightarrow> Some g
      | None \<Rightarrow> firstTimeMatch patterns timeLine)"

text \<open>
  \<open>Number.parseInt\<close> does not throw, so the \<open>catch\<close> block behind it (which would look
  for the first run of digits in the line) is never entered: the number is whatever
  \<open>parseInt\<close> returns, NaN included. Nothing else in the \<open>try\<close> block throws either.
\<close>

definition parseSRTBlock :: "fix_table \<Rightarrow> jsstring \<Rightarrow> SubtitleEntry option" where
  "parseSRTBlock fixes block =
     (let lines = filter (\<lambda>line. line \<noteq> []) (map trim (split (lit [10]) (trim block)))
      in if length lines < 3 then None
         else
           (let number = parseInt (lines ! 0);
                timeLine = lines ! 1
            in case firstTimeMatch timePatterns timeLine of
                 None \<Rightarrow> None
               | Some (startTime, endTime) \<Rightarrow>
                   (let textLines = drop 2 lines;
                        text = join [10] textLines;
                        (cleanedText, style) = cleanAndFormatText fixes text
                    in Some \<lparr>number = number,
                             start = parseSRTTime startTime,
                             end_time = parseSRTTime endTime,
                             text_cue = cleanedText,
                             style = style,
                             originalText = text\<rparr>)))"

section \<open>File Parser: \<open>parseSRTFile\<close>\<close>

text \<open>
  \<open>/\n\s*\n/\<close>: a line feed, white space, a line feed. The greedy \<open>\s*\<close> takes the whole
  run of white space behind the first line feed (line feeds are white space too) and gives
  characters back until a line feed follows: the match ends behind the last line feed of
  that run.
\<close>

definition blankLine :: matcher where
  "blankLine s =
     (case s of
        [] \<Rightarrow> None
      | c # r \<Rightarrow>
          if c = 10 \<and> 10 \<in> set (takeWhile isWhiteSpace r)
          then Some (rev (takeWhile (\<lambda>x. x \<noteq> 10) (rev (takeWhile isWhiteSpace r))) @
                     dropWhile isWhiteSpace r)
          else None)"

text \<open>
  \<open>subtitles.sort((a, b) => a.number - b.number)\<close>. The sort is stable. A difference
  that is NaN counts as zero. When every number is an integer the result is the stable
  sort by number, which the insertion below computes; with a NaN among the numbers the
  comparison is not consistent and ECMAScript leaves the order to the implementation, of
  which the insertion is one.
\<close>

definition compareNumber :: "SubtitleEntry \<Rightarrow> SubtitleEntry \<Rightarrow> int" where
  "compareNumber a b = (case (number a, number b) of (Some x, Some y) \<Rightarrow> x - y | _ \<Rightarrow> 0)"

fun insertSubtitle :: "SubtitleEntry \<Rightarrow> SubtitleEntry list \<Rightarrow> SubtitleEntry list" where
  "insertSubtitle a [] = [a]"
| "insertSubtitle a (b # bs) =
     (if compareNumber a b \<le> 0 then a # b # bs else b # insertSubtitle a bs)"

definition sortSubtitles :: "SubtitleEntry list \<Rightarrow> SubtitleEntry list" where
  "sortSubtitles subs = foldr insertSubtitle subs []"

datatype file_error = EmptyFile

text \<open>The loop over the blocks: a blank block is skipped, a block that does not parse is dropped.\<close>

fun parseBlocks :: "fix_table \<Rightarrow> jsstring list \<Rightarrow> SubtitleEntry list" where
  "parseBlocks fixes [] = []"
| "parseBlocks fixes (block # blocks) =
     (if trim block = [] then parseBlocks fixes blocks
      else (case parseSRTBlock fixes block of
              Some parsedBlock \<Rightarrow> parsedBlock # parseBlocks fixes blocks
            | None \<Rightarrow> parseBlocks fixes blocks))"

text \<open>
  The array \<open>blocks\<close>: the line endings are made line feeds, the text is trimmed and
  split at the blank lines.
\<close>

definition srtBlocks :: "jsstring \<Rightarrow> jsstring list" where
  "srtBlocks content0 =
     (let content = replaceAll (lit [13]) [10] (replaceAll (lit [13, 10]) [10] content0)
      in split blankLine (trim content))"

definition parseSRTFile_try :: "fix_table \<Rightarrow> jsstring \<Rightarrow> file_error + SubtitleEntry list" where
  "parseSRTFile_try fixes content =
     (if trim content = [] then Inl EmptyFile
      else Inr (sortSubtitles (parseBlocks fixes (srtBlocks content))))"

text \<open>The error thrown for an empty file is caught by the function's own \<open>catch\<close> block.\<close>

definition parseSRTFile :: "fix_table \<Rightarrow> jsstring \<Rightarrow> SubtitleEntry list" where
  "parseSRTFile fixes content =
     (case parseSRTFile_try fixes content of
        Inl _ \<Rightarrow> []
      | Inr subtitles \<Rightarrow> subtitles)"

section \<open>Timing Validator: \<open>validateSubtitleTiming\<close>\<close>

text \<open>
  The validator computes with fractions of a second. A number is a rational or NaN
  (\<open>None\<close>); the rationals are exact, where a double would carry a rounding error far
  below the hundredth of a second that \<open>toFixed(2)\<close> rounds to.
  \<open>Number.parseFloat\<close> reads white space, a sign, digits, and a fraction behind a period;
  exponents and \<open>Infinity\<close> do not occur in the timestamps the converter builds and are
  not read here.
\<close>

definition fracVal :: "jsstring \<Rightarrow> rat" where
  "fracVal ds = of_nat (digitsVal ds) / 10 ^ length ds"

definition parseDecimal :: "jsstring \<Rightarrow> rat option" where
  "parseDecimal s =
     (let ip = takeWhile isDigit s;
          r = drop (length ip) s;
          fp = (case r of [] \<Rightarrow> [] | c # r' \<Rightarrow> if c = 46 then takeWhile isDigit r' else [])
      in if ip = [] \<and> fp = [] then None
         else Some (of_nat (digitsVal ip) + fracVal fp))"

definition parseFloat :: "jsstring option \<Rightarrow> rat option" where
  "parseFloat str =
     (case str of
        None \<Rightarrow> None
      | Some s \<Rightarrow>
          (case dropWhile isWhiteSpace s of
             [] \<Rightarrow> None
           | c # r \<Rightarrow>
               if c = 45 then map_option uminus (parseDecimal r)
               else if c = 43 then parseDecimal r
               else parseDecimal (c # r)))"

text \<open>\<open>parts[i]\<close> is \<open>undefined\<close> behind the end of the array, and \<open>parseInt(undefined)\<close> is NaN.\<close>

definition nthOpt :: "'a list \<Rightarrow> nat \<Rightarrow> 'a option" where
  "nthOpt xs i = (if i < length xs then Some (xs ! i) else None)"

definition parseIntOpt :: "jsstring option \<Rightarrow> rat option" where
  "parseIntOpt str = (case str of None \<Rightarrow> None | Some s \<Rightarrow> map_option of_int (parseInt s))"

definition timeSeconds :: "jsstring \<Rightarrow> rat option" where
  "timeSeconds t =
     (let parts = split (lit [58]) t
      in case (parseIntOpt (nthOpt parts 0), parseIntOpt (nthOpt parts 1), parseFloat (nthOpt parts 2)) of
           (Some h, Some m, Some s) \<Rightarrow> Some (h * 3600 + m * 60 + s)
         | _ \<Rightarrow> None)"

text \<open>The remainder \<open>x % y\<close> has the sign of \<open>x\<close>: the quotient is truncated.\<close>

definition jsRem :: "rat \<Rightarrow> rat \<Rightarrow> rat" where
  "jsRem x y = x - y * of_int (if 0 \<le> x / y then \<lfloor>x / y\<rfloor> else \<lceil>x / y\<rceil>)"

text \<open>\<open>x.toFixed(2)\<close>: the nearest number of hundredths, the larger of two equally near.\<close>

definition toFixed2 :: "rat \<Rightarrow> jsstring" where
  "toFixed2 x =
     (let n = nat \<lfloor>\<bar>x\<bar> * 100 + 1 / 2\<rfloor>;
          m = natStr (n div 100) @ [46] @ padStart 2 48 (natStr (n mod 100))
      in if x < 0 then 45 # m else m)"

text \<open>An integer in a template literal, as \<open>hours\<close> and \<open>minutes\<close> are.\<close>

definition intToString :: "int \<Rightarrow> jsstring" where
  "intToString i = numToString (Some i)"

text \<open>
  The body of the loop over the records. A comparison with NaN is false, so a record
  with a time that is not a number stays as it is.
\<close>

definition validateOne :: "SubtitleEntry \<Rightarrow> SubtitleEntry" where
  "validateOne sub =
     (case (timeSeconds (start sub), timeSeconds (end_time sub)) of
        (Some startSeconds, Some endSeconds0) \<Rightarrow>
          if endSeconds0 \<le> startSeconds
          then (let endSeconds = startSeconds + 1;
                    hours = \<lfloor>endSeconds / 3600\<rfloor>;
                    minutes = \<lfloor>jsRem endSeconds 3600 / 60\<rfloor>;
                    seconds = jsRem endSeconds 60
                in sub\<lparr>end_time := intToString hours @ [58] @
                                     padStart 2 48 (intToString minutes) @ [58] @
                                     padStart 5 48 (toFixed2 seconds)\<rparr>)
          else sub
      | _ \<Rightarrow> sub)"

text \<open>Nothing in the loop body throws, so every record takes the first \<open>push\<close>.\<close>

definition validateSubtitleTiming :: "SubtitleEntry list \<Rightarrow> SubtitleEntry list" where
  "validateSubtitleTiming subtitles =
     (if subtitles = [] then subtitles else map validateOne subtitles)"

section \<open>ASS Serializer: \<open>writeASSFile\<close>\<close>

text \<open>The header template, line by line; every line ends with a line feed.\<close>

definition assHeaderLines :: "jsstring list" where
  "assHeaderLines =
     [
      asc ''[Script Info]'',
      asc ''Title: Converted from SRT'',
      asc ''ScriptType: v4.00+'',
      asc ''WrapStyle: 0'',
      asc ''ScaledBorderAndShadow: yes'',
      asc ''YCbCr Matrix: TV.601'',
      asc ''PlayResX: 1920'',
      asc ''PlayResY: 1080'',
      asc '''',
      asc ''[V4+ Styles]'',
      asc ''Format: Name, Fontname, Fontsize, PrimaryColour, SecondaryColour, OutlineColour, BackColour, Bold, Italic, Underline, StrikeOut, ScaleX, ScaleY, Spacing, Angle, BorderStyle, Outline, Shadow, Alignment, MarginL, MarginR, MarginV, Encoding'',
      asc ''Style: Default,Arial,20,&H00FFFFFF,&H000000FF,&H00000000,&H80000000,0,0,0,0,100,100,0,0,1,2,2,2,10,10,10,1'',
      asc ''Style: Title,Arial,24,&H00FFFFFF,&H000000FF,&H00000000,&H80000000,-1,0,0,0,100,100,0,0,1,2,2,8,10,10,10,1'',
      asc ''Style: Italic,Arial,20,&H00FFFFFF,&H000000FF,&H00000000,&H80000000,0,-1,0,0,100,100,0,0,1,2,2,2,10,10,10,1'',
      asc '''',
      asc ''[Events]'',
      asc ''Format: Layer, Start, End, Style, Name, MarginL, MarginR, MarginV, Effect, Text'']"

definition assHeader :: jsstring where
  "assHeader = concat (map (\<lambda>l. l @ [10]) assHeaderLines)"

definition dialogueLine :: "SubtitleEntry \<Rightarrow> jsstring" where
  "dialogueLine sub =
     asc ''Dialogue: 0,'' @ start sub @ [44] @ end_time sub @ [44] @ style sub @
     asc '',,0,0,0,,'' @ text_cue sub @ [10]"

definition writeASSFile :: "SubtitleEntry list \<Rightarrow> jsstring" where
  "writeASSFile subtitles = foldl (\<lambda>content sub. content @ dialogueLine sub) assHeader subtitles"

section \<open>Conversion Orchestrator: \<open>convertToASS\<close>\<close>

record ConversionResult =
  success :: bool
  content :: "jsstring option"
  error :: "jsstring option"
  subtitleCount :: "nat option"

definition convertToASS :: "fix_table \<Rightarrow> jsstring \<Rightarrow> ConversionResult" where
  "convertToASS fixes srtContent =
     (let subtitles = parseSRTFile fixes srtContent
      in if subtitles = []
         then \<lparr>success = False, content = None,
               error = Some (asc ''No valid subtitles found in the SRT file''),
               subtitleCount = None\<rparr>
         else
           (let validatedSubtitles = validateSubtitleTiming subtitles;
                assContent = writeASSFile validatedSubtitles
            in \<lparr>success = True, content = Some assContent, error = None,
                 subtitleCount = Some (length validatedSubtitles)\<rparr>))"

section \<open>Notions used in the statements and the proofs\<close>

text \<open>
  A timestamp as the patterns of the source accept it: one or two digits of hours, two
  digits of minutes, two digits of seconds, a comma or a period, and one to three digits
  of a fraction. \<open>timestamp\<close> is its text.
\<close>

definition isTimestamp :: "jsstring \<Rightarrow> jsstring \<Rightarrow> jsstring \<Rightarrow> nat \<Rightarrow> jsstring \<Rightarrow> bool" where
  "isTimestamp h m s sep f \<longleftrightarrow>
     (length h = 1 \<or> length h = 2) \<and> list_all isDigit h \<and>
     length m = 2 \<and> list_all isDigit m \<and>
     length s = 2 \<and> list_all isDigit s \<and>
     (sep = 44 \<or> sep = 46) \<and>
     f \<noteq> [] \<and> length f \<le> 3 \<and> list_all isDigit f"

definition timestamp :: "jsstring \<Rightarrow> jsstring \<Rightarrow> jsstring \<Rightarrow> nat \<Rightarrow> jsstring \<Rightarrow> jsstring" where
  "timestamp h m s sep f = h @ [58] @ m @ [58] @ s @ [sep] @ f"

text \<open>The same up to the separator, without the fraction.\<close>

definition headOK :: "jsstring \<Rightarrow> jsstring \<Rightarrow> jsstring \<Rightarrow> nat \<Rightarrow> bool" where
  "headOK h m s sep \<longleftrightarrow>
     (length h = 1 \<or> length h = 2) \<and> list_all isDigit h \<and>
     length m = 2 \<and> list_all isDigit m \<and>
     length s = 2 \<and> list_all isDigit s \<and> (sep = 44 \<or> sep = 46)"

text \<open>
  The ASS timestamp of the digit groups of a match: the fraction is padded to three digits
  of milliseconds, and the hundredths are the milliseconds divided by ten, rounded down.
\<close>

definition centis :: "jsstring \<Rightarrow> nat" where
  "centis f = digitsVal (take 3 (padEnd 3 48 f)) div 10"

definition assTime :: "jsstring \<Rightarrow> jsstring \<Rightarrow> jsstring \<Rightarrow> jsstring \<Rightarrow> jsstring" where
  "assTime h m s f =
     natStr (digitsVal h) @ [58] @ padStart 2 48 (natStr (digitsVal m)) @ [58] @
     padStart 2 48 (natStr (digitsVal s)) @ [46] @ padStart 2 48 (natStr (centis f))"

text \<open>Replacing commas by periods, and the character classes that cannot tell the two apart.\<close>

definition commaToPeriod :: "nat \<Rightarrow> nat" where
  "commaToPeriod c = (if c = 44 then 46 else c)"

definition commaFree :: "cclass \<Rightarrow> bool" where
  "commaFree c \<longleftrightarrow> (\<forall>x. cmatch c (commaToPeriod x) = cmatch c x)"

text \<open>
  The first row of the table \<open>encodingFixes\<close>, which is intact in the source: a table to
  run the functions on.
\<close>

definition sampleFixes :: fix_table where
  "sampleFixes =
     [([258, 161], [225]), ([258, 32], [224]), ([225, 186, 163], [7843]),
      ([258, 163], [227]), ([225, 186, 161], [7841])]"

text \<open>A string occurs in a text: the text is a prefix, the string, a suffix.\<close>

definition occursIn :: "jsstring \<Rightarrow> jsstring \<Rightarrow> bool" where
  "occursIn pat text \<longleftrightarrow> (\<exists>a b. text = a @ pat @ b)"

text \<open>The failure result of the orchestrator when the parser returns no record.\<close>

definition noValidSubtitles :: ConversionResult where
  "noValidSubtitles =
     \<lparr>success = False, content = None,
      error = Some (asc ''No valid subtitles found in the SRT file''), subtitleCount = None\<rparr>"




text \<open>
  A block is accepted when the Block Parser returns a record with an integer index for it,
  and a document is accepted when it is not empty and every one of its blocks is. The
  index of a record is \<open>cueIndex\<close>.
\<close>

definition acceptedBlock :: "fix_table \<Rightarrow> jsstring \<Rightarrow> bool" where
  "acceptedBlock fixes block =
     (case parseSRTBlock fixes block of None \<Rightarrow> False | Some e \<Rightarrow> number e \<noteq> None)"

definition acceptedDocument :: "fix_table \<Rightarrow> jsstring \<Rightarrow> bool" where
  "acceptedDocument fixes doc \<longleftrightarrow> trim doc \<noteq> [] \<and> list_all (acceptedBlock fixes) (srtBlocks doc)"

definition cueIndex :: "SubtitleEntry \<Rightarrow> int" where
  "cueIndex e = (case number e of None \<Rightarrow> 0 | Some n \<Rightarrow> n)"

text \<open>The lines of an ASS document that start with \<open>Dialogue:\<close>.\<close>

definition dialogueLines :: "jsstring \<Rightarrow> jsstring list" where
  "dialogueLines out = filter (\<lambda>l. take 9 l = asc ''Dialogue:'') (split (lit [10]) out)"

text \<open>A dialogue line without its line feed.\<close>

definition dialogueText :: "SubtitleEntry \<Rightarrow> jsstring" where
  "dialogueText sub =
     asc ''Dialogue: 0,'' @ start sub @ [44] @ end_time sub @ [44] @ style sub @
     asc '',,0,0,0,,'' @ text_cue sub"

text \<open>A record none of whose fields holds a line feed.\<close>

definition lineFree :: "SubtitleEntry \<Rightarrow> bool" where
  "lineFree sub \<longleftrightarrow>
     10 \<notin> set (start sub) \<and> 10 \<notin> set (end_time sub) \<and> 10 \<notin> set (style sub) \<and>
     10 \<notin> set (text_cue sub)"

text \<open>
  A cue of an SRT document: its index, the two timestamps of its time line, and its text
  lines. It is well formed when the index is one that a double holds exactly, both
  timestamps have the form the patterns accept, and there is at least one text line, each
  of them free of line breaks and neither empty nor starting or ending with white space.
  Its block is the index line, the time line with the arrow \<open>-->\<close>, and the text lines;
  a document is the blocks with an empty line between them.
\<close>

record Cue =
  cue_index :: nat
  cue_start :: jsstring
  cue_end :: jsstring
  cue_lines :: "jsstring list"

definition isTimestampText :: "jsstring \<Rightarrow> bool" where
  "isTimestampText t \<longleftrightarrow> (\<exists>h m s sep f. isTimestamp h m s sep f \<and> t = timestamp h m s sep f)"

definition plainLine :: "jsstring \<Rightarrow> bool" where
  "plainLine l \<longleftrightarrow>
     l \<noteq> [] \<and> 10 \<notin> set l \<and> 13 \<notin> set l \<and> \<not> isWhiteSpace (hd l) \<and> \<not> isWhiteSpace (last l)"

definition wellFormedCue :: "Cue \<Rightarrow> bool" where
  "wellFormedCue c \<longleftrightarrow>
     cue_index c < 2 ^ 53 \<and> isTimestampText (cue_start c) \<and> isTimestampText (cue_end c) \<and>
     cue_lines c \<noteq> [] \<and> list_all plainLine (cue_lines c)"

definition cueLines :: "Cue \<Rightarrow> jsstring list" where
  "cueLines c =
     natStr (cue_index c) # (cue_start c @ asc '' --> '' @ cue_end c) # cue_lines c"

definition cueBlock :: "Cue \<Rightarrow> jsstring" where
  "cueBlock c = join [10] (cueLines c)"

definition srtDocument :: "Cue list \<Rightarrow> jsstring" where
  "srtDocument cues = join [10, 10] (map cueBlock cues)"

text \<open>The record the Block Parser builds for a well-formed cue.\<close>

definition cueRecord :: "fix_table \<Rightarrow> Cue \<Rightarrow> SubtitleEntry" where
  "cueRecord fixes c =
     \<lparr>number = Some (int (cue_index c)),
      start = parseSRTTime (cue_start c),
      end_time = parseSRTTime (cue_end c),
      text_cue = fst (cleanAndFormatText fixes (join [10] (cue_lines c))),
      style = snd (cleanAndFormatText fixes (join [10] (cue_lines c))),
      originalText = join [10] (cue_lines c)\<rparr>"

text \<open>A line that is not empty, holds no line feed and does not start with white space.\<close>

definition solidLine :: "jsstring \<Rightarrow> bool" where
  "solidLine l \<longleftrightarrow> l \<noteq> [] \<and> 10 \<notin> set l \<and> \<not> isWhiteSpace (hd l)"

section \<open>Lemmas about the timestamp patterns\<close>

lemma isDigit_not_ws: "isDigit c \<Longrightarrow> \<not> isWhiteSpace c"
  by (auto simp: isDigit_def isWhiteSpace_def)

lemma matchSeq_Some_iff:
  "matchSeq cs s = Some r \<longleftrightarrow> (\<exists>p. s = p @ r \<and> list_all2 cmatch cs p)"
proof (induction cs s rule: matchSeq.induct)
  case (1 s)
  show ?case by auto
next
  case (2 c cs)
  show ?case by (auto simp: list_all2_Cons1)
next
  case (3 c cs x xs)
  then show ?case
    by (auto simp: list_all2_Cons1 Cons_eq_append_conv)
qed

lemma len1: "length xs = Suc 0 \<longleftrightarrow> (\<exists>a. xs = [a])"
  by (cases xs) auto

lemma len2: "length xs = 2 \<longleftrightarrow> (\<exists>a b. xs = [a, b])"
  by (cases xs; cases "tl xs") auto

lemma tsHead_complete:
  assumes "headOK h m s sep"
  shows "tsHead (h @ 58 # m @ 58 # s @ sep # rest) = Some (h, m, s, rest)"
proof -
  from assms obtain c d e f where m: "m = [c, d]" and s: "s = [e, f]"
    and dg: "isDigit c" "isDigit d" "isDigit e" "isDigit f" and sp: "sep = 44 \<or> sep = 46"
    by (auto simp: headOK_def len2)
  from assms consider a where "h = [a]" "isDigit a" | a b where "h = [a, b]" "isDigit a" "isDigit b"
    by (auto simp: headOK_def len1 len2)
  then show ?thesis
  proof cases
    case 1
    have "\<not> isDigit 58" by (simp add: isDigit_def)
    then show ?thesis using 1 m s dg sp by (auto simp: tsHead_def)
  next
    case 2
    then show ?thesis using m s dg sp by (auto simp: tsHead_def)
  qed
qed

lemma tsHead_sound:
  assumes "tsHead str = Some (h, m, s, rest)"
  shows "\<exists>sep. headOK h m s sep \<and> str = h @ 58 # m @ 58 # s @ sep # rest"
  using assms
  by (auto simp: tsHead_def matchSeq_Some_iff list_all2_Cons1 headOK_def split: option.splits)

lemma takeWhile_digit_append:
  "list_all isDigit f \<Longrightarrow> takeWhile isDigit (f @ post) = f @ takeWhile isDigit post"
  by (induction f) auto

lemma timePatternAt_complete:
  assumes "isTimestamp h m s sep f"
  shows "timePatternAt (timestamp h m s sep f @ post) = Some (h, m, s, take 3 (f @ takeWhile isDigit post))"
proof -
  have hd: "headOK h m s sep" using assms by (simp add: isTimestamp_def headOK_def)
  have "tsHead (timestamp h m s sep f @ post) = Some (h, m, s, f @ post)"
    using tsHead_complete[OF hd, of "f @ post"] by (simp add: timestamp_def)
  moreover have "takeWhile isDigit (f @ post) = f @ takeWhile isDigit post"
    using assms by (simp add: takeWhile_digit_append isTimestamp_def)
  moreover have "f \<noteq> []" using assms by (simp add: isTimestamp_def)
  ultimately show ?thesis by (simp add: timePatternAt_def)
qed

lemma timePatternAt_sound:
  assumes "timePatternAt str = Some (h, m, s, f)"
  shows "\<exists>sep post. isTimestamp h m s sep f \<and> str = timestamp h m s sep f @ post"
proof -
  from assms obtain rest where th: "tsHead str = Some (h, m, s, rest)"
    and f: "f = take 3 (takeWhile isDigit rest)" and ne: "takeWhile isDigit rest \<noteq> []"
    by (auto simp: timePatternAt_def Let_def split: option.splits if_splits)
  from tsHead_sound[OF th] obtain sep where hd: "headOK h m s sep"
    and str: "str = h @ 58 # m @ 58 # s @ sep # rest" by blast
  have fd: "list_all isDigit f"
    unfolding f list_all_iff by (meson in_set_takeD set_takeWhileD)
  have "rest = f @ drop (length f) rest"
    unfolding f by (metis append_take_drop_id takeWhile_eq_take take_take min.commute length_take)
  then have "str = timestamp h m s sep f @ drop (length f) rest"
    using str by (simp add: timestamp_def)
  moreover have "isTimestamp h m s sep f"
    using hd fd ne f by (auto simp: isTimestamp_def headOK_def)
  ultimately show ?thesis by blast
qed

text \<open>An occurrence of a timestamp in a string, behind a prefix \<open>a\<close>.\<close>

lemma timePatternMatch_sound:
  "timePatternMatch str = Some (h, m, s, f) \<Longrightarrow>
   \<exists>a sep post. isTimestamp h m s sep f \<and> str = a @ timestamp h m s sep f @ post"
proof (induction str)
  case Nil
  then show ?case by simp
next
  case (Cons c cs)
  show ?case
  proof (cases "timePatternAt (c # cs)")
    case None
    with Cons obtain a sep post where "isTimestamp h m s sep f" "cs = a @ timestamp h m s sep f @ post"
      by auto
    then have "isTimestamp h m s sep f \<and> c # cs = (c # a) @ timestamp h m s sep f @ post" by simp
    then show ?thesis by blast
  next
    case (Some g)
    with Cons.prems have "timePatternAt (c # cs) = Some (h, m, s, f)" by simp
    from timePatternAt_sound[OF this] show ?thesis by (metis append_Nil)
  qed
qed

lemma timePatternMatch_skip:
  "(\<And>a b. pre = a @ b \<Longrightarrow> b \<noteq> [] \<Longrightarrow> timePatternAt (b @ rest) = None) \<Longrightarrow>
   timePatternMatch (pre @ rest) = timePatternMatch rest"
proof (induction pre)
  case Nil
  then show ?case by simp
next
  case (Cons c pre)
  have "timePatternAt ((c # pre) @ rest) = None"
    using Cons.prems[of "[]" "c # pre"] by simp
  moreover have "timePatternMatch (pre @ rest) = timePatternMatch rest"
  proof (rule Cons.IH)
    fix a b assume "pre = a @ b" "b \<noteq> []"
    then show "timePatternAt (b @ rest) = None"
      using Cons.prems[of "c # a" b] by simp
  qed
  ultimately show ?case by simp
qed

lemma timePatternAt_nonempty: "timePatternAt [] = None"
  by (simp add: timePatternAt_def tsHead_def)

lemma timePatternMatch_at:
  "timePatternAt str = Some g \<Longrightarrow> timePatternMatch str = Some g"
  by (cases str) (simp_all add: timePatternAt_nonempty)

text \<open>Replacing a comma by a period changes no match of the timestamp pattern.\<close>

lemma matchSeq_map_comma:
  "list_all commaFree cs \<Longrightarrow>
   matchSeq cs (map commaToPeriod xs) = map_option (map commaToPeriod) (matchSeq cs xs)"
  by (induction cs xs rule: matchSeq.induct) (auto simp: commaFree_def)

lemma commaFree_classes: "commaFree Digit" "commaFree (Lit 58)" "commaFree (OneOf [46, 44])"
  by (auto simp: commaFree_def commaToPeriod_def isDigit_def)

lemma map_comma_digits: "list_all isDigit ds \<Longrightarrow> map commaToPeriod ds = ds"
  by (induction ds) (auto simp: commaToPeriod_def isDigit_def)

lemma isDigit_comma [simp]: "isDigit (commaToPeriod x) = isDigit x"
  by (auto simp: commaToPeriod_def isDigit_def)

lemma takeWhile_digit_comma:
  "takeWhile isDigit (map commaToPeriod xs) = takeWhile isDigit xs"
  by (induction xs) (auto simp: commaToPeriod_def isDigit_def)

lemma tsHead_map_comma:
  "tsHead (map commaToPeriod xs) =
     map_option (\<lambda>(h, m, s, r). (h, m, s, map commaToPeriod r)) (tsHead xs)"
proof (cases "tsHead xs")
  case None
  then show ?thesis
    by (auto simp: tsHead_def matchSeq_map_comma commaFree_classes split: option.splits)
next
  case (Some g)
  obtain h m s r where g: "g = (h, m, s, r)" by (cases g) auto
  from tsHead_sound[of xs h m s r] Some g obtain sep where
    ok: "headOK h m s sep" and xs: "xs = h @ 58 # m @ 58 # s @ sep # r" by auto
  have sep': "commaToPeriod sep = 44 \<or> commaToPeriod sep = 46"
    using ok by (auto simp: headOK_def commaToPeriod_def)
  have "map commaToPeriod xs = h @ 58 # m @ 58 # s @ commaToPeriod sep # map commaToPeriod r"
    using ok xs by (simp add: map_comma_digits headOK_def) (simp add: commaToPeriod_def)
  moreover have "headOK h m s (commaToPeriod sep)"
    using ok sep' by (simp add: headOK_def)
  ultimately have "tsHead (map commaToPeriod xs) = Some (h, m, s, map commaToPeriod r)"
    using tsHead_complete by simp
  then show ?thesis using Some g by simp
qed

lemma timePatternAt_map_comma: "timePatternAt (map commaToPeriod xs) = timePatternAt xs"
  by (cases "tsHead xs")
     (auto simp: timePatternAt_def tsHead_map_comma takeWhile_digit_comma)

lemma timePatternMatch_map_comma: "timePatternMatch (map commaToPeriod xs) = timePatternMatch xs"
proof (induction xs)
  case Nil
  then show ?case by simp
next
  case (Cons x xs)
  have "timePatternAt (commaToPeriod x # map commaToPeriod xs) = timePatternAt (x # xs)"
    using timePatternAt_map_comma[of "x # xs"] by simp
  with Cons show ?case by (simp split: option.splits)
qed

lemma map_comma_replaceFirst: "map commaToPeriod (replaceFirst 44 46 xs) = map commaToPeriod xs"
  by (induction xs) (auto simp: commaToPeriod_def)

lemma timePatternMatch_replaceFirst:
  "timePatternMatch (replaceFirst 44 46 xs) = timePatternMatch xs"
  by (metis timePatternMatch_map_comma map_comma_replaceFirst)

text \<open>Trimming keeps a middle part: the string is white space, the trimmed string, white space.\<close>

lemma trim_decompose:
  "\<exists>a b. str = a @ trim str @ b \<and> list_all isWhiteSpace a \<and> list_all isWhiteSpace b"
proof -
  let ?a = "takeWhile isWhiteSpace str"
  let ?r = "dropWhile isWhiteSpace str"
  let ?b = "rev (takeWhile isWhiteSpace (rev ?r))"
  have "rev ?r = takeWhile isWhiteSpace (rev ?r) @ dropWhile isWhiteSpace (rev ?r)" by simp
  then have "?r = rev (dropWhile isWhiteSpace (rev ?r)) @ ?b"
    by (metis rev_append rev_rev_ident)
  then have "str = ?a @ trim str @ ?b"
    by (metis trim_def takeWhile_dropWhile_id)
  moreover have "list_all isWhiteSpace ?a" "list_all isWhiteSpace ?b"
    by (auto simp: list_all_iff dest: set_takeWhileD)
  ultimately show ?thesis by blast
qed

lemma takeWhile_isDigit_all: "list_all isDigit ds \<Longrightarrow> takeWhile isDigit ds = ds"
  by (induction ds) auto

lemma parseInt_digits:
  assumes "ds \<noteq> []" "list_all isDigit ds"
  shows "parseInt ds = Some (int (digitsVal ds))"
proof -
  obtain c r where ds: "ds = c # r" using assms by (cases ds) auto
  have c: "isDigit c" and r: "list_all isDigit r" using assms ds by auto
  have nws: "\<not> isWhiteSpace c" using c by (rule isDigit_not_ws)
  have c45: "c \<noteq> 45" "c \<noteq> 43" using c by (auto simp: isDigit_def)
  have "parseMagnitude (c # r) = Some (digitsVal (c # r))"
  proof (cases r)
    case Nil
    then show ?thesis using c by (simp add: parseMagnitude_def)
  next
    case (Cons d r')
    then have "d \<noteq> 120" "d \<noteq> 88" using r by (auto simp: isDigit_def)
    then show ?thesis
      using c r Cons by (simp add: parseMagnitude_def takeWhile_isDigit_all)
  qed
  then show ?thesis using ds nws c45 by (simp add: parseInt_def)
qed

lemma padEnd_digits: "list_all isDigit f \<Longrightarrow> list_all isDigit (take 3 (padEnd 3 48 f))"
  by (auto simp: padEnd_def list_all_iff isDigit_def dest!: in_set_takeD)

lemma digitsVal_bound: "list_all isDigit ds \<Longrightarrow> digitsVal ds < 10 ^ length ds"
proof (induction ds rule: rev_induct)
  case Nil
  then show ?case by (simp add: digitsVal_def)
next
  case (snoc d ds)
  then have "digitsVal ds < 10 ^ length ds" "d - 48 < 10"
    by (auto simp: isDigit_def)
  then have "10 * digitsVal ds + (d - 48) < 10 * 10 ^ length ds" by linarith
  then show ?case by (simp add: digitsVal_def)
qed

lemma parseSRTTime_try_match:
  assumes tm: "timePatternMatch (replaceFirst 44 46 (trim str)) = Some (h, m, s, f)"
      and ok: "isTimestamp h m s sep f"
  shows "parseSRTTime_try str =
           (if 60 \<le> digitsVal m \<or> 60 \<le> digitsVal s then Inl InvalidTimeValues
            else Inr (assTime h m s f))"
proof -
  have h: "parseInt h = Some (int (digitsVal h))"
    using ok by (intro parseInt_digits) (auto simp: isTimestamp_def)
  have m: "parseInt m = Some (int (digitsVal m))"
    using ok by (intro parseInt_digits) (auto simp: isTimestamp_def)
  have s: "parseInt s = Some (int (digitsVal s))"
    using ok by (intro parseInt_digits) (auto simp: isTimestamp_def)
  have fd: "list_all isDigit (take 3 (padEnd 3 48 f))"
    using ok by (intro padEnd_digits) (simp add: isTimestamp_def)
  have fl: "length (take 3 (padEnd 3 48 f)) = 3"
    by (simp add: padEnd_def)
  have f: "parseInt (take 3 (padEnd 3 48 f)) = Some (int (digitsVal (take 3 (padEnd 3 48 f))))"
    using fd fl by (intro parseInt_digits) auto
  have fb: "digitsVal (take 3 (padEnd 3 48 f)) < 1000"
    using digitsVal_bound[OF fd] fl by simp
  have cd: "int (digitsVal (take 3 (padEnd 3 48 f))) div 10 = int (digitsVal (take 3 (padEnd 3 48 f)) div 10)"
    by simp
  show ?thesis
    using fb
    by (simp add: parseSRTTime_try_def tm h m s f numGe_def numToString_def assTime_def centis_def
        cd del: timePatternMatch.simps of_nat_div)
qed

lemma parseSRTTime_try_None:
  "timePatternMatch (replaceFirst 44 46 (trim str)) = None \<Longrightarrow> parseSRTTime_try str = Inl InvalidTimeFormat"
  by (simp add: parseSRTTime_try_def)

lemma dropWhile_ws_keep:
  "xs \<noteq> [] \<Longrightarrow> \<not> isWhiteSpace (hd xs) \<Longrightarrow>
   dropWhile isWhiteSpace (pre @ xs @ post) = dropWhile isWhiteSpace pre @ xs @ post"
  by (induction pre) (auto simp: neq_Nil_conv)

lemma trim_middle:
  assumes "xs \<noteq> []" "\<not> isWhiteSpace (hd xs)" "\<not> isWhiteSpace (last xs)"
  shows "trim (pre @ xs @ post) =
           dropWhile isWhiteSpace pre @ xs @ rev (dropWhile isWhiteSpace (rev post))"
proof -
  let ?p = "dropWhile isWhiteSpace pre"
  have 1: "dropWhile isWhiteSpace (pre @ xs @ post) = ?p @ xs @ post"
    using assms by (simp add: dropWhile_ws_keep)
  have "rev (?p @ xs @ post) = rev post @ rev xs @ rev ?p" by simp
  moreover have "dropWhile isWhiteSpace (rev post @ rev xs @ rev ?p) =
      dropWhile isWhiteSpace (rev post) @ rev xs @ rev ?p"
    using assms by (intro dropWhile_ws_keep) (simp_all add: hd_rev)
  ultimately show ?thesis by (simp add: trim_def 1)
qed

lemma takeWhile_digit_ws:
  "list_all isWhiteSpace wb \<Longrightarrow> takeWhile isDigit (xs @ wb) = takeWhile isDigit xs"
  by (induction xs) (auto simp: takeWhile_eq_Nil_iff list_all_iff dest: isDigit_not_ws)

lemma timestamp_ends:
  assumes "isTimestamp h m s sep f"
  shows "timestamp h m s sep f \<noteq> []" "isDigit (hd (timestamp h m s sep f))"
    "isDigit (last (timestamp h m s sep f))"
proof -
  from assms have "h \<noteq> []" "f \<noteq> []" "list_all isDigit h" "list_all isDigit f"
    by (auto simp: isTimestamp_def)
  then show "timestamp h m s sep f \<noteq> []" "isDigit (hd (timestamp h m s sep f))"
    "isDigit (last (timestamp h m s sep f))"
    by (auto simp: timestamp_def list_all_iff neq_Nil_conv)
qed

lemma parseSRTTime_embedded:
  assumes ok: "isTimestamp h m s sep f"
      and first: "\<forall>a h' m' s' sep' f' b.
             pre @ timestamp h m s sep f @ post = a @ timestamp h' m' s' sep' f' @ b \<and>
             isTimestamp h' m' s' sep' f' \<longrightarrow> length pre \<le> length a"
  shows "parseSRTTime (pre @ timestamp h m s sep f @ post) =
           (if digitsVal m < 60 \<and> digitsVal s < 60
            then assTime h m s (take 3 (f @ takeWhile isDigit post))
            else asc ''0:00:00.00'')"
proof -
  let ?ts = "timestamp h m s sep f"
  let ?str = "pre @ ?ts @ post"
  let ?pre = "dropWhile isWhiteSpace pre"
  let ?post = "rev (dropWhile isWhiteSpace (rev post))"
  let ?f = "take 3 (f @ takeWhile isDigit post)"
  have tr: "trim ?str = ?pre @ ?ts @ ?post"
    using timestamp_ends[OF ok] by (intro trim_middle) (auto dest: isDigit_not_ws)
  obtain wa where wa: "pre = wa @ ?pre"
    by (metis takeWhile_dropWhile_id)
  obtain wb where wb: "post = ?post @ wb" "list_all isWhiteSpace wb"
  proof -
    have "rev post = takeWhile isWhiteSpace (rev post) @ dropWhile isWhiteSpace (rev post)" by simp
    then have "post = ?post @ rev (takeWhile isWhiteSpace (rev post))"
      by (metis rev_append rev_rev_ident)
    moreover have "list_all isWhiteSpace (rev (takeWhile isWhiteSpace (rev post)))"
      by (auto simp: list_all_iff dest: set_takeWhileD)
    ultimately show ?thesis using that by blast
  qed
  have skip: "timePatternMatch (?pre @ ?ts @ ?post) = timePatternMatch (?ts @ ?post)"
  proof (rule timePatternMatch_skip)
    fix a b assume ab: "?pre = a @ b" "b \<noteq> []"
    show "timePatternAt (b @ ?ts @ ?post) = None"
    proof (rule ccontr)
      assume "timePatternAt (b @ ?ts @ ?post) \<noteq> None"
      then obtain h' m' s' f' where "timePatternAt (b @ ?ts @ ?post) = Some (h', m', s', f')"
        by auto
      from timePatternAt_sound[OF this] obtain sep' p' where
        ok': "isTimestamp h' m' s' sep' f'" and eq: "b @ ?ts @ ?post = timestamp h' m' s' sep' f' @ p'"
        by blast
      have "?str = wa @ a @ b @ ?ts @ ?post @ wb"
        using wa wb(1) ab(1) by (metis append.assoc)
      also have "\<dots> = (wa @ a) @ timestamp h' m' s' sep' f' @ (p' @ wb)"
        using eq by (metis append.assoc)
      finally have "length pre \<le> length (wa @ a)" using first ok' by blast
      moreover have "length pre = length wa + length a + length b"
        using wa ab(1) by (metis append.assoc length_append)
      ultimately show False using ab(2) by simp
    qed
  qed
  have fd: "takeWhile isDigit ?post = takeWhile isDigit post"
    using takeWhile_digit_ws[OF wb(2), of ?post] wb(1) by simp
  have at: "timePatternAt (?ts @ ?post) = Some (h, m, s, ?f)"
    using timePatternAt_complete[OF ok, of ?post] fd by simp
  have tm: "timePatternMatch (replaceFirst 44 46 (trim ?str)) = Some (h, m, s, ?f)"
    using timePatternMatch_at[OF at] skip tr by (simp add: timePatternMatch_replaceFirst)
  have ok2: "isTimestamp h m s sep ?f"
    using ok by (auto simp: isTimestamp_def list_all_iff dest!: in_set_takeD set_takeWhileD)
  show ?thesis
    using parseSRTTime_try_match[OF tm ok2] by (auto simp: parseSRTTime_def)
qed

lemma natStr_small: "n < 10 \<Longrightarrow> natStr n = [48 + n]"
  by (simp add: natStr.simps)

lemma natStr_two: "10 \<le> n \<Longrightarrow> n < 100 \<Longrightarrow> natStr n = [48 + n div 10, 48 + n mod 10]"
  by (subst natStr.simps) (simp add: natStr_small)

lemma natStr_three:
  "100 \<le> n \<Longrightarrow> n < 1000 \<Longrightarrow> natStr n = [48 + n div 100, 48 + (n div 10) mod 10, 48 + n mod 10]"
  by (subst natStr.simps) (simp add: natStr_two div_mult2_eq[symmetric])

lemma pad2_natStr: "n < 100 \<Longrightarrow> padStart 2 48 (natStr n) = [48 + n div 10, 48 + n mod 10]"
  by (cases "n < 10") (simp_all add: padStart_def natStr_small natStr_two)

lemma pad3_natStr:
  "n < 1000 \<Longrightarrow> padStart 3 48 (natStr n) = [48 + n div 100, 48 + (n div 10) mod 10, 48 + n mod 10]"
  apply (cases "n < 10")
   apply (simp add: padStart_def natStr_small numeral_2_eq_2)
  apply (cases "n < 100")
   apply (simp add: padStart_def natStr_two)
  apply (simp add: padStart_def natStr_three)
  done

lemma isDigit_48: "d < 10 \<Longrightarrow> isDigit (48 + d)"
  by (simp add: isDigit_def)

lemma digitsVal1: "digitsVal [48 + a] = a"
  by (simp add: digitsVal_def)

lemma digitsVal2: "digitsVal [48 + a, 48 + b] = 10 * a + b"
  by (simp add: digitsVal_def)

lemma digitsVal3: "digitsVal [48 + a, 48 + b, 48 + c] = 100 * a + 10 * b + c"
  by (simp add: digitsVal_def)

lemma first_occurrence_no_digits:
  assumes nd: "list_all (\<lambda>c. \<not> isDigit c) pre"
      and eq: "pre @ rest = a @ timestamp h m s sep f @ b"
      and ok: "isTimestamp h m s sep f"
  shows "length pre \<le> length a"
proof (rule ccontr)
  assume "\<not> length pre \<le> length a"
  then have lt: "length a < length pre" by simp
  have "(a @ timestamp h m s sep f @ b) ! length a = hd (timestamp h m s sep f)"
    using timestamp_ends(1)[OF ok] by (simp add: nth_append hd_conv_nth)
  moreover have "(pre @ rest) ! length a = pre ! length a"
    using lt by (simp add: nth_append)
  ultimately have "isDigit (pre ! length a)"
    using eq timestamp_ends(2)[OF ok] by simp
  moreover have "\<not> isDigit (pre ! length a)"
    using nd lt by (simp add: list_all_length)
  ultimately show False by simp
qed

section \<open>Lemmas about the encoding fixer\<close>

lemma lit_Some_iff: "lit pat s = Some r \<longleftrightarrow> s = pat @ r"
proof -
  have "\<And>p. list_all2 cmatch (map Lit pat) p \<longleftrightarrow> p = pat"
    by (induction pat) (auto simp: list_all2_Cons1)
  then show ?thesis by (auto simp: lit_def matchSeq_Some_iff)
qed

lemma lit_None_if_absent: "\<not> occursIn pat (a @ s) \<Longrightarrow> lit pat s = None"
proof (rule ccontr)
  assume no: "\<not> occursIn pat (a @ s)" and "lit pat s \<noteq> None"
  then obtain r where "lit pat s = Some r" by auto
  then have "a @ s = a @ pat @ r" by (simp add: lit_Some_iff)
  then show False using no by (auto simp: occursIn_def)
qed

lemma replaceAll_absent_aux:
  "\<not> occursIn pat (a @ str) \<Longrightarrow> replaceAll (lit pat) rep str = str"
proof (induction str arbitrary: a)
  case Nil
  then show ?case by (simp add: lit_None_if_absent)
next
  case (Cons x xs)
  have "lit pat (x # xs) = None" using Cons.prems by (rule lit_None_if_absent)
  moreover have "replaceAll (lit pat) rep xs = xs"
    using Cons.IH[of "a @ [x]"] Cons.prems by simp
  ultimately show ?case by simp
qed

lemma replaceAll_absent: "\<not> occursIn pat str \<Longrightarrow> replaceAll (lit pat) rep str = str"
  using replaceAll_absent_aux[of pat "[]" str] by simp

lemma fixEncodingArtifacts_absent:
  "\<forall>(wrong, correct) \<in> set tbl. \<not> occursIn wrong str \<Longrightarrow> fixEncodingArtifacts tbl str = str"
  unfolding fixEncodingArtifacts_def
  by (induction tbl) (auto simp: replaceAll_absent)

lemma not_occursIn_set: "\<exists>c \<in> set pat. c \<notin> set text \<Longrightarrow> \<not> occursIn pat text"
  by (auto simp: occursIn_def)

section \<open>Lemmas about the orchestrator\<close>

lemma convertToASS_no_subtitles:
  "parseSRTFile tbl c = [] \<Longrightarrow> convertToASS tbl c = noValidSubtitles"
  by (simp add: convertToASS_def noValidSubtitles_def)

section \<open>Lemmas about the timing validator\<close>

lemma digitsVal_snoc: "digitsVal (ds @ [d]) = 10 * digitsVal ds + (d - 48)"
  by (simp add: digitsVal_def)

lemma natStr_digits: "list_all isDigit (natStr n)"
proof (induction n rule: natStr.induct)
  case (1 n)
  show ?case
  proof (cases "n < 10")
    case True
    then show ?thesis by (simp add: natStr.simps[of n] isDigit_def)
  next
    case False
    have "n mod 10 < 10" by simp
    then have "isDigit (48 + n mod 10)" by (rule isDigit_48)
    with 1 False show ?thesis by (simp add: natStr.simps[of n])
  qed
qed

lemma natStr_nonempty: "natStr n \<noteq> []"
  by (subst natStr.simps) simp

lemma digitsVal_natStr: "digitsVal (natStr n) = n"
proof (induction n rule: natStr.induct)
  case (1 n)
  show ?case
  proof (cases "n < 10")
    case True
    then show ?thesis by (simp add: natStr.simps[of n] digitsVal_def)
  next
    case False
    with 1 have "digitsVal (natStr (n div 10)) = n div 10" by simp
    then show ?thesis using False by (simp add: natStr.simps[of n] digitsVal_snoc)
  qed
qed

lemma parseInt_natStr: "parseInt (natStr n) = Some (int n)"
  by (simp add: parseInt_digits natStr_digits natStr_nonempty digitsVal_natStr)

lemma lit1: "lit [c] (x # xs) = (if x = c then Some xs else None)" "lit [c] [] = None"
  by (simp_all add: lit_def)

lemma splitAcc_no_sep: "c \<notin> set xs \<Longrightarrow> splitAcc (lit [c]) cur xs = [cur @ xs]"
  by (induction xs arbitrary: cur) (auto simp: lit1)

lemma splitAcc_sep:
  "c \<notin> set xs \<Longrightarrow> splitAcc (lit [c]) cur (xs @ c # rest) = (cur @ xs) # splitAcc (lit [c]) [] rest"
  by (induction xs arbitrary: cur) (auto simp: lit1)



lemma pad2_digits: "n < 100 \<Longrightarrow> list_all isDigit (padStart 2 48 (natStr n))"
  by (simp add: pad2_natStr isDigit_48)













section \<open>Lemmas about the file parser and the serializer\<close>

lemma compareNumber_cueIndex:
  "number a \<noteq> None \<Longrightarrow> number b \<noteq> None \<Longrightarrow> compareNumber a b \<le> 0 \<longleftrightarrow> cueIndex a \<le> cueIndex b"
  by (auto simp: compareNumber_def cueIndex_def)

lemma insertSubtitle_insort:
  "number a \<noteq> None \<Longrightarrow> \<forall>b \<in> set bs. number b \<noteq> None \<Longrightarrow>
   insertSubtitle a bs = insort_key cueIndex a bs"
  by (induction bs) (auto simp: compareNumber_cueIndex)

lemma sortSubtitles_sort_key:
  "\<forall>b \<in> set bs. number b \<noteq> None \<Longrightarrow> sortSubtitles bs = sort_key cueIndex bs"
proof (induction bs)
  case Nil
  then show ?case by (simp add: sortSubtitles_def)
next
  case (Cons a bs)
  then have ih: "foldr insertSubtitle bs [] = sort_key cueIndex bs"
    by (simp add: sortSubtitles_def)
  have "\<forall>b \<in> set (sort_key cueIndex bs). number b \<noteq> None" using Cons.prems by simp
  then have "insertSubtitle a (sort_key cueIndex bs) = insort_key cueIndex a (sort_key cueIndex bs)"
    using Cons.prems by (intro insertSubtitle_insort) simp_all
  then show ?case by (simp add: sortSubtitles_def ih sort_key_def)
qed

lemma validateOne_fields:
  "number (validateOne e) = number e" "start (validateOne e) = start e"
  "style (validateOne e) = style e" "text_cue (validateOne e) = text_cue e"
  by (auto simp: validateOne_def Let_def split: option.splits)

lemma validateSubtitleTiming_map: "validateSubtitleTiming subs = map validateOne subs"
  by (simp add: validateSubtitleTiming_def)

lemma writeASSFile_concat: "writeASSFile subs = assHeader @ concat (map dialogueLine subs)"
proof -
  have "\<And>acc. foldl (\<lambda>content sub. content @ dialogueLine sub) acc subs = acc @ concat (map dialogueLine subs)"
    by (induction subs) auto
  then show ?thesis by (simp add: writeASSFile_def)
qed

lemma parseSRTBlock_blank: "trim block = [] \<Longrightarrow> parseSRTBlock tbl block = None"
  by (simp add: parseSRTBlock_def split_def)

lemma parseBlocks_accepted:
  "list_all (acceptedBlock tbl) blocks \<Longrightarrow>
   map Some (parseBlocks tbl blocks) = map (parseSRTBlock tbl) blocks \<and>
   (\<forall>e \<in> set (parseBlocks tbl blocks). number e \<noteq> None)"
proof (induction blocks)
  case Nil
  then show ?case by simp
next
  case (Cons b blocks)
  then obtain e where e: "parseSRTBlock tbl b = Some e" "number e \<noteq> None"
    by (auto simp: acceptedBlock_def split: option.splits)
  then have "trim b \<noteq> []" using parseSRTBlock_blank[of b tbl] by auto
  then show ?case using Cons e by simp
qed

lemma split_lines:
  assumes "\<forall>l \<in> set ls. 10 \<notin> set l"
  shows "split (lit [10]) (concat (map (\<lambda>l. l @ [10]) ls)) = ls @ [[]]"
proof -
  have "splitAcc (lit [10]) [] (concat (map (\<lambda>l. l @ [10]) ls)) = ls @ [[]]"
    using assms
  proof (induction ls)
    case Nil
    then show ?case by simp
  next
    case (Cons l ls)
    have "splitAcc (lit [10]) [] (l @ 10 # concat (map (\<lambda>l. l @ [10]) ls)) =
        ([] @ l) # splitAcc (lit [10]) [] (concat (map (\<lambda>l. l @ [10]) ls))"
      using Cons.prems by (intro splitAcc_sep) simp
    then show ?case using Cons by simp
  qed
  then show ?thesis by (simp add: split_def)
qed

lemma assHeaderLines_plain:
  "\<forall>l \<in> set assHeaderLines. 10 \<notin> set l \<and> take 9 l \<noteq> asc ''Dialogue:''"
  by (simp add: assHeaderLines_def asc_def)

lemma dialogueLine_text: "dialogueLine sub = dialogueText sub @ [10]"
  by (simp add: dialogueLine_def dialogueText_def)

lemma dialogueText_prefix: "take 9 (dialogueText sub) = asc ''Dialogue:''"
  by (simp add: dialogueText_def asc_def)

lemma dialogueText_lineFree: "lineFree sub \<Longrightarrow> 10 \<notin> set (dialogueText sub)"
  by (simp add: lineFree_def dialogueText_def asc_def)

lemma dialogueLines_writeASSFile:
  assumes "\<forall>sub \<in> set subs. lineFree sub"
  shows "dialogueLines (writeASSFile subs) = map dialogueText subs"
proof -
  let ?ls = "assHeaderLines @ map dialogueText subs"
  have w: "writeASSFile subs = concat (map (\<lambda>l. l @ [10]) ?ls)"
    by (simp add: writeASSFile_concat assHeader_def dialogueLine_text[abs_def] comp_def)
  have nl: "\<forall>l \<in> set ?ls. 10 \<notin> set l"
    using assms assHeaderLines_plain by (auto dest: dialogueText_lineFree)
  have "split (lit [10]) (concat (map (\<lambda>l. l @ [10]) ?ls)) = ?ls @ [[]]"
    using nl by (rule split_lines)
  then have "split (lit [10]) (writeASSFile subs) = ?ls @ [[]]"
    by (simp only: w)
  moreover have "filter (\<lambda>l. take 9 l = asc ''Dialogue:'') assHeaderLines = []"
    using assHeaderLines_plain by (simp add: filter_empty_conv)
  moreover have "filter (\<lambda>l. take 9 l = asc ''Dialogue:'') (map dialogueText subs) = map dialogueText subs"
    by (simp add: filter_id_conv dialogueText_prefix)
  moreover have "take 9 [] \<noteq> asc ''Dialogue:''" by (simp add: asc_def)
  ultimately show ?thesis by (simp add: dialogueLines_def)
qed


lemma natStr_no_lf: "10 \<notin> set (natStr n)"
  using natStr_digits[of n] by (auto simp: list_all_iff isDigit_def)

lemma numToString_no_lf: "10 \<notin> set (numToString v)"
  by (cases v) (auto simp: numToString_def asc_def natStr_no_lf)

lemma padStart_no_lf: "10 \<notin> set s \<Longrightarrow> 10 \<notin> set (padStart n 48 s)"
  by (simp add: padStart_def)

lemma parseSRTTime_no_lf: "10 \<notin> set (parseSRTTime x)"
proof (cases "parseSRTTime_try x")
  case (Inl e)
  then show ?thesis by (simp add: parseSRTTime_def asc_def)
next
  case (Inr t)
  then have "10 \<notin> set t"
    by (auto simp: parseSRTTime_try_def Let_def numToString_no_lf padStart_no_lf
             split: option.splits if_splits)
  then show ?thesis using Inr by (simp add: parseSRTTime_def)
qed

lemma toFixed2_no_lf: "10 \<notin> set (toFixed2 x)"
  by (simp add: toFixed2_def Let_def natStr_no_lf padStart_no_lf)

lemma validateOne_lineFree: "lineFree e \<Longrightarrow> lineFree (validateOne e)"
  by (auto simp: lineFree_def validateOne_def Let_def intToString_def numToString_no_lf
        padStart_no_lf toFixed2_no_lf split: option.splits)

text \<open>After the line feeds are replaced, none is left.\<close>

lemma replaceAll_lit1_absent:
  "c \<notin> set rep \<Longrightarrow> c \<notin> set (replaceAll (lit [c]) rep xs)"
  by (induction xs) (auto simp: lit1)

lemma lit_suffix: "lit pat s = Some r \<Longrightarrow> set r \<subseteq> set s"
  by (auto simp: lit_Some_iff)

lemma splitAcc_lit_subset:
  "l \<in> set (splitAcc (lit pat) cur s) \<Longrightarrow> set l \<subseteq> set cur \<union> set s"
proof (induction "lit pat" cur s arbitrary: l rule: splitAcc.induct)
  case (1 cur)
  then show ?case by simp
next
  case (2 cur x xs)
  show ?case
  proof (cases "lit pat (x # xs)")
    case None
    with 2 show ?thesis by auto
  next
    case (Some r)
    have sub: "set r \<subseteq> set (x # xs)" using Some by (rule lit_suffix)
    show ?thesis
    proof (cases "length r \<le> length xs")
      case True
      from 2(4) Some True have "l = cur \<or> l \<in> set (splitAcc (lit pat) [] r)" by simp
      then show ?thesis
      proof
        assume "l = cur" then show ?thesis by auto
      next
        assume "l \<in> set (splitAcc (lit pat) [] r)"
        from 2(2)[OF Some True this] sub show ?thesis by auto
      qed
    next
      case False
      from 2(4) Some False have "l \<in> set (splitAcc (lit pat) (cur @ [x]) xs)" by simp
      from 2(3)[OF Some False this] show ?thesis by auto
    qed
  qed
qed

lemma set_trim: "set (trim s) \<subseteq> set s"
  by (auto simp: trim_def dest!: set_dropWhileD)

lemma set_join: "set (join sep ls) \<subseteq> set sep \<union> \<Union> (set ` set ls)"
  by (induction sep ls rule: join.induct) auto

lemma cleanSteps_no_lf: "10 \<notin> set (fst (cleanSteps t)) \<and> 10 \<notin> set (snd (cleanSteps t))"
proof -
  define t7 where "t7 = replaceAll (lit [10]) assBreak
     (foldl (\<lambda>t (entity, char). replaceAll (lit entity) char t)
       (replaceAll brTag assBreak
         (foldl (\<lambda>t name. replaceAll (tagPattern name) [] t)
           (let text = replaceAll (lit [13]) [10] (replaceAll (lit [13, 10]) [10] t)
            in if existsMatch italicPattern text then replaceAll italicTag [] text else text)
           htmlTags)) htmlEntities)"
  have t7: "10 \<notin> set t7"
    unfolding t7_def by (rule replaceAll_lit1_absent) (simp add: assBreak_def)
  have lines: "\<forall>l \<in> set (split (lit assBreak) t7). 10 \<notin> set l"
    using t7 splitAcc_lit_subset[of _ assBreak "[]" t7] by (auto simp: split_def)
  have cl: "\<forall>l \<in> set (filter (\<lambda>line. line \<noteq> []) (map trim (split (lit assBreak) t7))). 10 \<notin> set l"
    using lines set_trim by auto
  have "10 \<notin> set (join assBreak (filter (\<lambda>line. line \<noteq> []) (map trim (split (lit assBreak) t7))))"
    using cl set_join[of assBreak "filter (\<lambda>line. line \<noteq> []) (map trim (split (lit assBreak) t7))"]
    by (auto simp: assBreak_def)
  then have "10 \<notin> set (trim (join assBreak (filter (\<lambda>line. line \<noteq> []) (map trim (split (lit assBreak) t7)))))"
    using set_trim by blast
  then show ?thesis
    by (simp add: cleanSteps_def Let_def t7_def asc_def)
qed

lemma whiteSpaceRun_collapses:
  "isWhiteSpace c \<Longrightarrow> c \<noteq> 32 \<Longrightarrow> c \<notin> set (replaceAll whiteSpaceRun [32] s)"
proof (induction whiteSpaceRun "[32::nat]" s rule: replaceAll.induct)
  case 1
  then show ?case by (simp add: whiteSpaceRun_def)
next
  case (2 x xs)
  show ?case
  proof (cases "isWhiteSpace x")
    case True
    then have m: "whiteSpaceRun (x # xs) = Some (dropWhile isWhiteSpace xs)"
      by (simp add: whiteSpaceRun_def)
    have len: "length (dropWhile isWhiteSpace xs) \<le> length xs" by (rule length_dropWhile_le)
    from 2(2)[OF m len] 2(4,5) have "c \<notin> set (replaceAll whiteSpaceRun [32] (dropWhile isWhiteSpace xs))"
      by simp
    then show ?thesis using m len 2(5) by simp
  next
    case False
    then have m: "whiteSpaceRun (x # xs) = None" by (simp add: whiteSpaceRun_def)
    from 2(1)[OF m] 2(4,5) have "c \<notin> set (replaceAll whiteSpaceRun [32] xs)" by simp
    then show ?thesis using m False 2(4) by auto
  qed
qed

lemma collapsedOriginal_no_lf: "10 \<notin> set (collapsedOriginal t)"
  unfolding collapsedOriginal_def
  by (rule whiteSpaceRun_collapses) (simp_all add: isWhiteSpace_def)

lemma cleanAndFormatText_no_lf:
  "10 \<notin> set (fst (cleanAndFormatText tbl t)) \<and> 10 \<notin> set (snd (cleanAndFormatText tbl t))"
  using cleanSteps_no_lf[of "fixEncodingArtifacts tbl (replaceAll (lit [65279]) [] t)"]
    collapsedOriginal_no_lf[of t]
  by (auto simp: cleanAndFormatText_def Let_def asc_def split: prod.splits)

lemma parseSRTBlock_lineFree: "parseSRTBlock tbl b = Some e \<Longrightarrow> lineFree e"
  using cleanAndFormatText_no_lf
  by (auto simp: parseSRTBlock_def Let_def lineFree_def parseSRTTime_no_lf
           split: if_splits option.splits prod.splits) (metis fst_conv snd_conv)+

lemma splitAcc_nonempty: "splitAcc m cur s \<noteq> []"
  by (induction m cur s rule: splitAcc.induct) (auto split: option.splits)

lemma srtBlocks_nonempty: "srtBlocks doc \<noteq> []"
  by (simp add: srtBlocks_def split_def splitAcc_nonempty Let_def)

lemma convertToASS_accepted_document:
  assumes "acceptedDocument fixes doc"
  shows "\<exists>cues. map Some cues = map (parseSRTBlock fixes) (srtBlocks doc) \<and>
           (let recs = map validateOne (sort_key cueIndex cues)
            in convertToASS fixes doc =
                 \<lparr>success = True, content = Some (writeASSFile recs), error = None,
                  subtitleCount = Some (length (srtBlocks doc))\<rparr> \<and>
               dialogueLines (writeASSFile recs) = map dialogueText recs \<and>
               length (dialogueLines (writeASSFile recs)) = length (srtBlocks doc) \<and>
               sorted (map cueIndex recs))"
proof -
  let ?blocks = "srtBlocks doc"
  let ?cues = "parseBlocks fixes ?blocks"
  let ?recs = "map validateOne (sort_key cueIndex ?cues)"
  from assms have ne: "trim doc \<noteq> []" and wf: "list_all (acceptedBlock fixes) ?blocks"
    by (simp_all add: acceptedDocument_def)
  from parseBlocks_accepted[OF wf] have
    cues: "map Some ?cues = map (parseSRTBlock fixes) ?blocks" and
    nums: "\<forall>e \<in> set ?cues. number e \<noteq> None" by simp_all
  from cues have len: "length ?cues = length ?blocks"
    by (metis length_map)
  then have cne: "?cues \<noteq> []" using srtBlocks_nonempty[of doc] by auto
  have pf: "parseSRTFile fixes doc = sort_key cueIndex ?cues"
    using ne nums by (simp add: parseSRTFile_def parseSRTFile_try_def sortSubtitles_sort_key)
  have sne: "sort_key cueIndex ?cues \<noteq> []"
    using cne by (metis length_sort length_0_conv)
  have conv: "convertToASS fixes doc =
      \<lparr>success = True, content = Some (writeASSFile ?recs), error = None,
       subtitleCount = Some (length ?blocks)\<rparr>"
    using sne len by (simp add: convertToASS_def pf validateSubtitleTiming_map)
  have "\<forall>e \<in> set ?cues. lineFree e"
  proof
    fix e assume "e \<in> set ?cues"
    then have "Some e \<in> set (map (parseSRTBlock fixes) ?blocks)"
      using cues by (metis image_eqI set_map)
    then obtain b where "parseSRTBlock fixes b = Some e" by auto
    then show "lineFree e" by (rule parseSRTBlock_lineFree)
  qed
  then have lf: "\<forall>sub \<in> set ?recs. lineFree sub"
    by (auto intro: validateOne_lineFree)
  have dl: "dialogueLines (writeASSFile ?recs) = map dialogueText ?recs"
    using lf by (rule dialogueLines_writeASSFile)
  have dn: "length (dialogueLines (writeASSFile ?recs)) = length ?blocks"
    using len by (simp add: dl)
  have "cueIndex \<circ> validateOne = cueIndex"
    by (rule ext) (simp add: cueIndex_def validateOne_fields)
  then have "map cueIndex ?recs = map cueIndex (sort_key cueIndex ?cues)"
    by simp
  then have so: "sorted (map cueIndex ?recs)"
    by (simp only: sorted_sort_key)
  show ?thesis
    using cues conv dl dn so by (intro exI[of _ ?cues]) (simp add: Let_def)
qed

section \<open>Lemmas about well-formed cues\<close>

lemma blankLine_other: "c \<noteq> 10 \<Longrightarrow> blankLine (c # r) = None"
  by (simp add: blankLine_def)

lemma splitAcc_blank_line:
  "10 \<notin> set l \<Longrightarrow> splitAcc blankLine cur (l @ rest) = splitAcc blankLine (cur @ l) rest"
  by (induction l arbitrary: cur) (auto simp: blankLine_other)

lemma blankLine_single:
  assumes "solidLine l"
  shows "blankLine (10 # l @ rest) = None"
proof -
  obtain c l' where l: "l = c # l'" "\<not> isWhiteSpace c"
    using assms by (cases l) (auto simp: solidLine_def)
  then show ?thesis by (simp add: blankLine_def)
qed

lemma blankLine_double:
  assumes "solidLine l"
  shows "blankLine (10 # 10 # l @ rest) = Some (l @ rest)"
proof -
  obtain c l' where l: "l = c # l'" "\<not> isWhiteSpace c"
    using assms by (cases l) (auto simp: solidLine_def)
  have ws: "isWhiteSpace 10" by (simp add: isWhiteSpace_def)
  show ?thesis using l ws by (simp add: blankLine_def)
qed

lemma splitAcc_block:
  assumes "ls \<noteq> []" "list_all solidLine ls"
  shows "splitAcc blankLine cur (join [10] ls @ rest) = splitAcc blankLine (cur @ join [10] ls) rest"
  using assms
proof (induction "[10::nat]" ls arbitrary: cur rule: join.induct)
  case 1
  then show ?case by simp
next
  case (2 l)
  then show ?case by (simp add: splitAcc_blank_line solidLine_def)
next
  case (3 l v va)
  note More = 3
  have l: "10 \<notin> set l" using More(2,3) by (simp add: solidLine_def)
  have sv: "solidLine v" using More(2,3) by simp
  obtain r where j: "join [10] (v # va) = v @ r"
    by (cases va) auto
  have "splitAcc blankLine cur (join [10] (l # v # va) @ rest) =
        splitAcc blankLine (cur @ l) (10 # join [10] (v # va) @ rest)"
    using splitAcc_blank_line[OF l, of cur "10 # join [10] (v # va) @ rest"] by simp
  also have "\<dots> = splitAcc blankLine ((cur @ l) @ [10]) (join [10] (v # va) @ rest)"
    using blankLine_single[OF sv, of "r @ rest"] j by simp
  also have "\<dots> = splitAcc blankLine (((cur @ l) @ [10]) @ join [10] (v # va)) rest"
    using More(2,3) by (intro More(1)) simp_all
  finally show ?case by simp
qed

lemma split_blocks:
  assumes "\<forall>ls \<in> set (b # bs). ls \<noteq> [] \<and> list_all solidLine ls"
  shows "splitAcc blankLine cur (join [10, 10] (map (join [10]) (b # bs))) =
           (cur @ join [10] b) # map (join [10]) bs"
  using assms
proof (induction bs arbitrary: b cur)
  case Nil
  then show ?case
    using splitAcc_block[of b cur "[]"] by simp
next
  case (Cons b' bs)
  have b: "b \<noteq> []" "list_all solidLine b" using Cons.prems by simp_all
  have b': "b' \<noteq> []" "list_all solidLine b'" using Cons.prems by simp_all
  then obtain l ls where bl: "b' = l # ls" "solidLine l" by (cases b') auto
  obtain r where j: "join [10, 10] (map (join [10]) (b' # bs)) = l @ r"
  proof -
    obtain r1 where "join [10] b' = l @ r1" using bl by (cases ls) auto
    then show ?thesis using that by (cases bs) auto
  qed
  have "splitAcc blankLine cur (join [10, 10] (map (join [10]) (b # b' # bs))) =
        splitAcc blankLine cur (join [10] b @ (10 # 10 # join [10, 10] (map (join [10]) (b' # bs))))"
    by simp
  also have "\<dots> = splitAcc blankLine (cur @ join [10] b) (10 # 10 # join [10, 10] (map (join [10]) (b' # bs)))"
    using b by (intro splitAcc_block) simp_all
  also have "\<dots> = (cur @ join [10] b) # splitAcc blankLine [] (join [10, 10] (map (join [10]) (b' # bs)))"
    using blankLine_double[OF bl(2), of r] j by simp
  also have "\<dots> = (cur @ join [10] b) # join [10] b' # map (join [10]) bs"
    using Cons.IH[of b' "[]"] Cons.prems by simp
  finally show ?case by simp
qed


lemma split_join_lines:
  assumes "ls \<noteq> []" "\<forall>l \<in> set ls. 10 \<notin> set l"
  shows "split (lit [10]) (join [10] ls) = ls"
proof -
  have "splitAcc (lit [10]) [] (join [10] ls) = ls"
    using assms
  proof (induction "[10::nat]" ls rule: join.induct)
    case 1
    then show ?case by simp
  next
    case (2 l)
    then show ?case using splitAcc_no_sep[of 10 l "[]"] by simp
  next
    case (3 l v va)
    have "splitAcc (lit [10]) [] (l @ 10 # join [10] (v # va)) =
        ([] @ l) # splitAcc (lit [10]) [] (join [10] (v # va))"
      using 3(3) by (intro splitAcc_sep) simp
    then show ?case using 3 by simp
  qed
  then show ?thesis by (simp add: split_def)
qed

lemma trim_id: "l \<noteq> [] \<Longrightarrow> \<not> isWhiteSpace (hd l) \<Longrightarrow> \<not> isWhiteSpace (last l) \<Longrightarrow> trim l = l"
  using trim_middle[of l "[]" "[]"] by simp

lemma hd_join: "l \<noteq> [] \<Longrightarrow> hd (join sep (l # ls)) = hd l"
  by (cases ls) auto

lemma join_last_nonempty: "ls \<noteq> [] \<Longrightarrow> last ls \<noteq> [] \<Longrightarrow> join sep ls \<noteq> []"
  by (induction sep ls rule: join.induct) auto

lemma last_join: "ls \<noteq> [] \<Longrightarrow> last ls \<noteq> [] \<Longrightarrow> last (join sep ls) = last (last ls)"
proof (induction sep ls rule: join.induct)
  case (1 sep)
  then show ?case by simp
next
  case (2 sep l)
  then show ?case by simp
next
  case (3 sep l v va)
  have "join sep (v # va) \<noteq> []" using 3(2,3) by (intro join_last_nonempty) simp_all
  then show ?case using 3 by simp
qed

lemma join_nonempty: "ls \<noteq> [] \<Longrightarrow> hd ls \<noteq> [] \<Longrightarrow> join sep ls \<noteq> []"
  by (induction sep ls rule: join.induct) auto

text \<open>The time line of a well-formed cue matches the first of the three patterns.\<close>

lemma arrow_text: "asc '' --> '' = [32, 45, 45, 62, 32]"
  by (simp add: asc_def)

lemma timeRangeAt_arrow:
  assumes t1: "isTimestamp h1 m1 s1 sep1 f1" and t2: "isTimestamp h2 m2 s2 sep2 f2"
  shows "timeRangeAt [45, 45, 62]
           (timestamp h1 m1 s1 sep1 f1 @ asc '' --> '' @ timestamp h2 m2 s2 sep2 f2) =
         Some (timestamp h1 m1 s1 sep1 f1, timestamp h2 m2 s2 sep2 f2)"
proof -
  let ?ts1 = "timestamp h1 m1 s1 sep1 f1" and ?ts2 = "timestamp h2 m2 s2 sep2 f2"
  let ?s = "?ts1 @ asc '' --> '' @ ?ts2"
  let ?r1 = "f1 @ asc '' --> '' @ ?ts2"
  have ok1: "headOK h1 m1 s1 sep1" and ok2: "headOK h2 m2 s2 sep2"
    using t1 t2 by (simp_all add: isTimestamp_def headOK_def)
  have f1: "f1 \<noteq> []" "length f1 \<le> 3" "list_all isDigit f1"
    and f2: "f2 \<noteq> []" "length f2 \<le> 3" "list_all isDigit f2"
    using t1 t2 by (simp_all add: isTimestamp_def)
  have h1: "tsHead ?s = Some (h1, m1, s1, ?r1)"
    using tsHead_complete[OF ok1, of ?r1] by (simp add: timestamp_def)
  have d1: "takeWhile isDigit ?r1 = f1"
    using f1(3) by (simp add: takeWhile_digit_append arrow_text isDigit_def)
  have ws: "isWhiteSpace 32" "\<not> isWhiteSpace 45" by (simp_all add: isWhiteSpace_def)
  have dr: "dropWhile isWhiteSpace (drop (length f1) ?r1) = [45, 45, 62, 32] @ ?ts2"
    using ws by (simp add: arrow_text)
  have l: "lit [45, 45, 62] ([45, 45, 62, 32] @ ?ts2) = Some (32 # ?ts2)"
    by (simp add: lit_Some_iff)
  have hd2: "\<not> isWhiteSpace (hd ?ts2)" "?ts2 \<noteq> []"
    using timestamp_ends[OF t2] by (auto dest: isDigit_not_ws)
  then have r3: "dropWhile isWhiteSpace (32 # ?ts2) = ?ts2"
    using ws by (cases ?ts2) auto
  have h2: "tsHead ?ts2 = Some (h2, m2, s2, f2)"
    using tsHead_complete[OF ok2, of f2] by (simp add: timestamp_def)
  have d2: "take 3 (takeWhile isDigit f2) = f2"
    using f2 by (simp add: takeWhile_isDigit_all)
  have len: "length ?s - length ?r1 + length f1 = length ?ts1"
    by (simp add: timestamp_def)
  have g1: "take (length ?s - length ?r1 + length f1) ?s = ?ts1"
    unfolding len by simp
  have g2: "take (length ?ts2 - length f2 + length f2) ?ts2 = ?ts2"
    by (simp add: timestamp_def)
  show ?thesis
    unfolding timeRangeAt_def h1 using f1 f2
    by (simp only: option.case prod.case Let_def d1 dr l r3 h2 d2 g1 g2 if_False
          not_less[symmetric] simp_thms)
qed


lemma firstTimeMatch_arrow:
  assumes "isTimestampText t1" "isTimestampText t2"
  shows "firstTimeMatch timePatterns (t1 @ asc '' --> '' @ t2) = Some (t1, t2)"
proof -
  from assms obtain h1 m1 s1 sep1 f1 h2 m2 s2 sep2 f2 where
    a: "isTimestamp h1 m1 s1 sep1 f1" "t1 = timestamp h1 m1 s1 sep1 f1" and
    b: "isTimestamp h2 m2 s2 sep2 f2" "t2 = timestamp h2 m2 s2 sep2 f2"
    by (auto simp: isTimestampText_def)
  have at: "timeRangeAt [45, 45, 62] (t1 @ asc '' --> '' @ t2) = Some (t1, t2)"
    unfolding a(2) b(2) using a(1) b(1) by (rule timeRangeAt_arrow)
  have "t1 @ asc '' --> '' @ t2 \<noteq> []" by (simp add: arrow_text)
  then obtain c cs where cs: "t1 @ asc '' --> '' @ t2 = c # cs" by (cases "t1 @ asc '' --> '' @ t2") auto
  have "timeRangeMatch [45, 45, 62] (t1 @ asc '' --> '' @ t2) = Some (t1, t2)"
    using at unfolding cs by simp
  then show ?thesis by (simp add: timePatterns_def)
qed

lemma isTimestampText_ends:
  assumes "isTimestampText t"
  shows "t \<noteq> []" "\<not> isWhiteSpace (hd t)" "\<not> isWhiteSpace (last t)" "10 \<notin> set t" "13 \<notin> set t"
proof -
  from assms obtain h m s sep f where ok: "isTimestamp h m s sep f" and t: "t = timestamp h m s sep f"
    by (auto simp: isTimestampText_def)
  show "t \<noteq> []" "\<not> isWhiteSpace (hd t)" "\<not> isWhiteSpace (last t)"
    using timestamp_ends[OF ok] t by (auto dest: isDigit_not_ws)
  have "\<And>ds. list_all isDigit ds \<Longrightarrow> 10 \<notin> set ds \<and> 13 \<notin> set ds"
    by (auto simp: list_all_iff isDigit_def)
  then show "10 \<notin> set t" "13 \<notin> set t"
    using ok unfolding t by (auto simp: isTimestamp_def timestamp_def)
qed

lemma cueLines_trimmed:
  assumes "wellFormedCue c"
  shows "\<forall>l \<in> set (cueLines c). l \<noteq> [] \<and> 10 \<notin> set l \<and> 13 \<notin> set l \<and>
           \<not> isWhiteSpace (hd l) \<and> \<not> isWhiteSpace (last l)"
proof -
  let ?n = "natStr (cue_index c)"
  let ?t = "cue_start c @ asc '' --> '' @ cue_end c"
  have ts: "isTimestampText (cue_start c)" "isTimestampText (cue_end c)"
    and ls: "list_all plainLine (cue_lines c)"
    using assms by (simp_all add: wellFormedCue_def)
  have dg: "10 \<notin> set ds \<and> 13 \<notin> set ds \<and> \<not> isWhiteSpace (hd ds) \<and> \<not> isWhiteSpace (last ds)"
    if "list_all isDigit ds" "ds \<noteq> []" for ds
  proof -
    have "isDigit (hd ds)" "isDigit (last ds)" using that by (simp_all add: list_all_iff)
    moreover have "\<not> isDigit 10" "\<not> isDigit 13" by (simp_all add: isDigit_def)
    ultimately show ?thesis using that(1) by (auto simp: list_all_iff dest: isDigit_not_ws)
  qed
  have n: "?n \<noteq> [] \<and> 10 \<notin> set ?n \<and> 13 \<notin> set ?n \<and> \<not> isWhiteSpace (hd ?n) \<and> \<not> isWhiteSpace (last ?n)"
    using dg[OF natStr_digits natStr_nonempty] natStr_nonempty by simp
  have t: "?t \<noteq> [] \<and> 10 \<notin> set ?t \<and> 13 \<notin> set ?t \<and> \<not> isWhiteSpace (hd ?t) \<and> \<not> isWhiteSpace (last ?t)"
    using isTimestampText_ends[OF ts(1)] isTimestampText_ends[OF ts(2)]
    by (simp add: arrow_text)
  show ?thesis
    using n t ls by (auto simp: cueLines_def plainLine_def list_all_iff)
qed

lemma parseSRTBlock_cueBlock:
  assumes "wellFormedCue c"
  shows "parseSRTBlock tbl (cueBlock c) = Some (cueRecord tbl c)"
proof -
  let ?ls = "cueLines c"
  have tr: "\<forall>l \<in> set ?ls. l \<noteq> [] \<and> 10 \<notin> set l \<and> 13 \<notin> set l \<and>
           \<not> isWhiteSpace (hd l) \<and> \<not> isWhiteSpace (last l)"
    using assms by (rule cueLines_trimmed)
  have ne: "?ls \<noteq> []" by (simp add: cueLines_def)
  have lne: "last ?ls \<noteq> []" using tr ne by (meson last_in_set)
  have hne: "hd ?ls \<noteq> []" using tr ne by (meson hd_in_set)
  have bne: "cueBlock c \<noteq> []" using join_nonempty[OF ne hne] by (simp add: cueBlock_def)
  have "hd (cueBlock c) = hd (hd ?ls)"
    using hd_join[of "hd ?ls" "[10]" "tl ?ls"] hne ne by (simp add: cueBlock_def)
  then have hdb: "\<not> isWhiteSpace (hd (cueBlock c))" using tr ne by (metis hd_in_set)
  have "last (cueBlock c) = last (last ?ls)"
    using last_join[OF ne lne] by (simp add: cueBlock_def)
  then have lab: "\<not> isWhiteSpace (last (cueBlock c))" using tr ne by (metis last_in_set)
  have trb: "trim (cueBlock c) = cueBlock c" using bne hdb lab by (rule trim_id)
  have sp: "split (lit [10]) (cueBlock c) = ?ls"
    unfolding cueBlock_def using ne tr by (intro split_join_lines) auto
  have "map trim ?ls = ?ls"
    using tr by (intro map_idI trim_id) auto
  moreover have "filter (\<lambda>line. line \<noteq> []) ?ls = ?ls"
    using tr by (simp add: filter_id_conv)
  ultimately have lines: "filter (\<lambda>line. line \<noteq> []) (map trim (split (lit [10]) (trim (cueBlock c)))) = ?ls"
    by (simp add: trb sp)
  have len: "\<not> length ?ls < 3"
    using assms by (cases "cue_lines c") (simp_all add: cueLines_def wellFormedCue_def)
  have n0: "?ls ! 0 = natStr (cue_index c)" and n1: "?ls ! Suc 0 = cue_start c @ asc '' --> '' @ cue_end c"
    and d2: "drop 2 ?ls = cue_lines c"
    by (simp_all add: cueLines_def)
  have tm: "firstTimeMatch timePatterns (cue_start c @ asc '' --> '' @ cue_end c) =
      Some (cue_start c, cue_end c)"
    using assms by (intro firstTimeMatch_arrow) (simp_all add: wellFormedCue_def)
  show ?thesis
    unfolding parseSRTBlock_def lines Let_def
    using len by (simp add: n0 n1 d2 tm parseInt_natStr cueRecord_def split: prod.splits)
qed

lemma cueBlock_ends:
  assumes "wellFormedCue c"
  shows "cueBlock c \<noteq> []" "\<not> isWhiteSpace (hd (cueBlock c))" "\<not> isWhiteSpace (last (cueBlock c))"
    "13 \<notin> set (cueBlock c)"
proof -
  let ?ls = "cueLines c"
  have tr: "\<forall>l \<in> set ?ls. l \<noteq> [] \<and> 10 \<notin> set l \<and> 13 \<notin> set l \<and>
           \<not> isWhiteSpace (hd l) \<and> \<not> isWhiteSpace (last l)"
    using assms by (rule cueLines_trimmed)
  have ne: "?ls \<noteq> []" by (simp add: cueLines_def)
  have lne: "last ?ls \<noteq> []" using tr ne by (meson last_in_set)
  have hne: "hd ?ls \<noteq> []" using tr ne by (meson hd_in_set)
  show "cueBlock c \<noteq> []" using join_nonempty[OF ne hne] by (simp add: cueBlock_def)
  have "hd (cueBlock c) = hd (hd ?ls)"
    using hd_join[of "hd ?ls" "[10]" "tl ?ls"] hne ne by (simp add: cueBlock_def)
  then show "\<not> isWhiteSpace (hd (cueBlock c))" using tr ne by (metis hd_in_set)
  have "last (cueBlock c) = last (last ?ls)"
    using last_join[OF ne lne] by (simp add: cueBlock_def)
  then show "\<not> isWhiteSpace (last (cueBlock c))" using tr ne by (metis last_in_set)
  show "13 \<notin> set (cueBlock c)"
    using tr set_join[of "[10]" ?ls] by (auto simp: cueBlock_def)
qed

lemma srtDocument_ends:
  assumes "cues \<noteq> []" "list_all wellFormedCue cues"
  shows "srtDocument cues \<noteq> []" "\<not> isWhiteSpace (hd (srtDocument cues))"
    "\<not> isWhiteSpace (last (srtDocument cues))" "13 \<notin> set (srtDocument cues)"
proof -
  let ?bs = "map cueBlock cues"
  have ne: "?bs \<noteq> []" using assms by simp
  have hc: "wellFormedCue (hd cues)" "wellFormedCue (last cues)"
    using assms by (auto simp: list_all_iff)
  have hb: "hd ?bs = cueBlock (hd cues)" "last ?bs = cueBlock (last cues)"
    using assms(1) by (simp_all add: hd_map last_map)
  have hne: "hd ?bs \<noteq> []" and lne: "last ?bs \<noteq> []"
    using cueBlock_ends(1)[OF hc(1)] cueBlock_ends(1)[OF hc(2)] hb by simp_all
  show "srtDocument cues \<noteq> []"
    using join_nonempty[OF ne hne] by (simp add: srtDocument_def)
  have "hd (srtDocument cues) = hd (hd ?bs)"
    using hd_join[of "hd ?bs" "[10, 10]" "tl ?bs"] hne ne by (simp add: srtDocument_def)
  then show "\<not> isWhiteSpace (hd (srtDocument cues))"
    using cueBlock_ends(2)[OF hc(1)] hb by simp
  have "last (srtDocument cues) = last (last ?bs)"
    using last_join[OF ne lne] by (simp add: srtDocument_def)
  then show "\<not> isWhiteSpace (last (srtDocument cues))"
    using cueBlock_ends(3)[OF hc(2)] hb by simp
  have "\<forall>c \<in> set cues. 13 \<notin> set (cueBlock c)"
    using assms(2) cueBlock_ends(4) by (auto simp: list_all_iff)
  then show "13 \<notin> set (srtDocument cues)"
    using set_join[of "[10, 10]" ?bs] by (auto simp: srtDocument_def)
qed

lemma list_all_ws_dropWhile: "list_all isWhiteSpace w \<Longrightarrow> dropWhile isWhiteSpace w = []"
  by (simp add: list_all_iff)

lemma srtBlocks_document:
  assumes "cues \<noteq> []" "list_all wellFormedCue cues"
      and "list_all isWhiteSpace leader" "13 \<notin> set leader"
      and "list_all isWhiteSpace trailer" "13 \<notin> set trailer"
  shows "srtBlocks (leader @ srtDocument cues @ trailer) = map cueBlock cues"
    and "trim (leader @ srtDocument cues @ trailer) \<noteq> []"
proof -
  let ?J = "srtDocument cues"
  let ?doc = "leader @ ?J @ trailer"
  note e = srtDocument_ends[OF assms(1,2)]
  have n13: "13 \<notin> set ?doc" using e(4) assms(4,6) by simp
  have r1: "replaceAll (lit [13, 10]) [10] ?doc = ?doc"
    using n13 by (intro replaceAll_absent not_occursIn_set) auto
  have r2: "replaceAll (lit [13]) [10] ?doc = ?doc"
    using n13 by (intro replaceAll_absent not_occursIn_set) auto
  have "list_all isWhiteSpace (rev trailer)" using assms(5) by (simp add: list_all_iff)
  then have tr: "trim ?doc = ?J"
    using trim_middle[OF e(1,2,3), of leader trailer] assms(3)
    by (simp add: list_all_ws_dropWhile)
  then show "trim ?doc \<noteq> []" using e(1) by simp
  obtain c cs where cs: "cues = c # cs" using assms(1) by (cases cues) auto
  have solid: "\<forall>ls \<in> set (cueLines c # map cueLines cs). ls \<noteq> [] \<and> list_all solidLine ls"
  proof
    fix ls assume "ls \<in> set (cueLines c # map cueLines cs)"
    then obtain c' where c': "c' \<in> set cues" "ls = cueLines c'" using cs by auto
    then have "wellFormedCue c'" using assms(2) by (simp add: list_all_iff)
    from cueLines_trimmed[OF this] show "ls \<noteq> [] \<and> list_all solidLine ls"
      unfolding c'(2) by (auto simp: list_all_iff solidLine_def cueLines_def)
  qed
  have cb: "cueBlock = (\<lambda>x. join [10] (cueLines x))"
    by (rule ext) (simp add: cueBlock_def)
  have "?J = join [10, 10] (map (join [10]) (cueLines c # map cueLines cs))"
    by (simp add: srtDocument_def cs cb comp_def)
  then have "split blankLine ?J = ([] @ join [10] (cueLines c)) # map (join [10]) (map cueLines cs)"
    using split_blocks[OF solid, of "[]"] by (simp add: split_def)
  then have "split blankLine ?J = map cueBlock cues"
    by (simp add: cs cb comp_def)
  then show "srtBlocks ?doc = map cueBlock cues"
    by (simp add: srtBlocks_def r1 r2 tr)
qed

lemma map_insort_key: "map f (insort_key f x xs) = insort (f x) (map f xs)"
  by (induction xs) auto

lemma map_sort_key: "map f (sort_key f xs) = sort (map f xs)"
  by (induction xs) (simp_all add: map_insort_key)

section \<open>The claims\<close>

text \<open>
  C1. For every SRT document made of N well-formed cues (N at least one; white space
  without carriage returns may stand before and behind), in whatever order their indices
  come, \<open>convertToASS\<close> returns a success result with \<open>subtitleCount\<close> N; its content is
  the header followed by the dialogue lines of the N records of the cues, sorted by index
  and passed through the Timing Validator. The content holds exactly N lines that start
  with \<open>Dialogue:\<close>, one per cue, and their indices are the indices of the cues in
  ascending order.
\<close>

theorem convertToASS_well_formed_cues:
  assumes "cues \<noteq> []" "list_all wellFormedCue cues"
      and "list_all isWhiteSpace leader" "13 \<notin> set leader"
      and "list_all isWhiteSpace trailer" "13 \<notin> set trailer"
  shows "let recs = map validateOne (sort_key cueIndex (map (cueRecord fixes) cues))
         in convertToASS fixes (leader @ srtDocument cues @ trailer) =
              \<lparr>success = True, content = Some (writeASSFile recs), error = None,
               subtitleCount = Some (length cues)\<rparr> \<and>
            dialogueLines (writeASSFile recs) = map dialogueText recs \<and>
            length (dialogueLines (writeASSFile recs)) = length cues \<and>
            map cueIndex recs = sort (map (\<lambda>c. int (cue_index c)) cues)"
proof -
  let ?doc = "leader @ srtDocument cues @ trailer"
  let ?parsed = "map (cueRecord fixes) cues"
  let ?recs = "map validateOne (sort_key cueIndex ?parsed)"
  have bl: "srtBlocks ?doc = map cueBlock cues" and ne: "trim ?doc \<noteq> []"
    using assms by (rule srtBlocks_document)+
  have pb: "map (parseSRTBlock fixes) (srtBlocks ?doc) = map Some ?parsed"
    using assms(2) by (simp add: bl list_all_iff parseSRTBlock_cueBlock)
  have "list_all (acceptedBlock fixes) (srtBlocks ?doc)"
    using assms(2)
    by (simp add: bl list_all_iff acceptedBlock_def parseSRTBlock_cueBlock cueRecord_def)
  then have "acceptedDocument fixes ?doc" using ne by (simp add: acceptedDocument_def)
  from convertToASS_accepted_document[OF this] obtain parsed where
    p: "map Some parsed = map (parseSRTBlock fixes) (srtBlocks ?doc)" and
    conv: "convertToASS fixes ?doc =
       \<lparr>success = True, content = Some (writeASSFile (map validateOne (sort_key cueIndex parsed))),
        error = None, subtitleCount = Some (length (srtBlocks ?doc))\<rparr>" and
    dl: "dialogueLines (writeASSFile (map validateOne (sort_key cueIndex parsed))) =
       map dialogueText (map validateOne (sort_key cueIndex parsed))" and
    dn: "length (dialogueLines (writeASSFile (map validateOne (sort_key cueIndex parsed)))) =
       length (srtBlocks ?doc)"
    by (auto simp: Let_def)
  have "map Some parsed = map Some ?parsed" using p pb by simp
  then have pe: "parsed = ?parsed" by (rule map_injective) simp
  have "cueIndex \<circ> validateOne = cueIndex"
    by (rule ext) (simp add: cueIndex_def validateOne_fields)
  then have "map cueIndex ?recs = map cueIndex (sort_key cueIndex ?parsed)" by simp
  also have "\<dots> = sort (map cueIndex ?parsed)" by (rule map_sort_key)
  also have "map cueIndex ?parsed = map (\<lambda>c. int (cue_index c)) cues"
    by (simp add: cueIndex_def cueRecord_def comp_def)
  finally have idx: "map cueIndex ?recs = sort (map (\<lambda>c. int (cue_index c)) cues)" .
  show ?thesis
    using conv dl dn idx unfolding pe by (simp add: Let_def bl)
qed

theorem convertToASS_well_formed_cues_witness:
  "subtitleCount (convertToASS sampleFixes
     (asc ''2'' @ [10] @ asc ''00:00:05,000 --> 00:00:07,000'' @ [10] @ asc ''<i>Second</i>'' @ [10, 10] @
      asc ''1'' @ [10] @ asc ''00:00:01,000 --> 00:00:02,500'' @ [10] @ asc ''First'' @ [10])) = Some 2 \<and>
   map_option dialogueLines (content (convertToASS sampleFixes
     (asc ''2'' @ [10] @ asc ''00:00:05,000 --> 00:00:07,000'' @ [10] @ asc ''<i>Second</i>'' @ [10, 10] @
      asc ''1'' @ [10] @ asc ''00:00:01,000 --> 00:00:02,500'' @ [10] @ asc ''First'' @ [10]))) =
     Some [asc ''Dialogue: 0,0:00:01.00,0:00:02.50,Default,,0,0,0,,First'',
           asc ''Dialogue: 0,0:00:05.00,0:00:07.00,Italic,,0,0,0,,Second'']"
proof -
  let ?doc = "asc ''2'' @ [10] @ asc ''00:00:05,000 --> 00:00:07,000'' @ [10] @ asc ''<i>Second</i>'' @ [10, 10] @
      asc ''1'' @ [10] @ asc ''00:00:01,000 --> 00:00:02,500'' @ [10] @ asc ''First'' @ [10]"
  let ?c2 = "\<lparr>cue_index = 2, cue_start = asc ''00:00:05,000'', cue_end = asc ''00:00:07,000'',
      cue_lines = [asc ''<i>Second</i>'']\<rparr>"
  let ?c1 = "\<lparr>cue_index = 1, cue_start = asc ''00:00:01,000'', cue_end = asc ''00:00:02,500'',
      cue_lines = [asc ''First'']\<rparr>"
  have ts: "isTimestampText (asc ''00:00:05,000'')" "isTimestampText (asc ''00:00:07,000'')"
    "isTimestampText (asc ''00:00:01,000'')" "isTimestampText (asc ''00:00:02,500'')"
    unfolding isTimestampText_def
    by (rule exI[of _ "asc ''00''"], rule exI[of _ "asc ''00''"], rule exI[of _ "asc ''05''"],
        rule exI[of _ 44], rule exI[of _ "asc ''000''"],
        simp add: isTimestamp_def timestamp_def asc_def isDigit_def,
        rule exI[of _ "asc ''00''"], rule exI[of _ "asc ''00''"], rule exI[of _ "asc ''07''"],
        rule exI[of _ 44], rule exI[of _ "asc ''000''"],
        simp add: isTimestamp_def timestamp_def asc_def isDigit_def,
        rule exI[of _ "asc ''00''"], rule exI[of _ "asc ''00''"], rule exI[of _ "asc ''01''"],
        rule exI[of _ 44], rule exI[of _ "asc ''000''"],
        simp add: isTimestamp_def timestamp_def asc_def isDigit_def,
        rule exI[of _ "asc ''00''"], rule exI[of _ "asc ''00''"], rule exI[of _ "asc ''02''"],
        rule exI[of _ 44], rule exI[of _ "asc ''500''"],
        simp add: isTimestamp_def timestamp_def asc_def isDigit_def)
  have pl: "plainLine (asc ''<i>Second</i>'')" "plainLine (asc ''First'')"
    by (simp_all add: plainLine_def asc_def isWhiteSpace_def)
  have wf: "list_all wellFormedCue [?c2, ?c1]"
    using ts pl by (simp add: wellFormedCue_def)
  have doc: "[] @ srtDocument [?c2, ?c1] @ [10] = ?doc"
    by (simp add: srtDocument_def cueBlock_def cueLines_def natStr.simps asc_def)
  have recs: "map dialogueText (map validateOne (sort_key cueIndex (map (cueRecord sampleFixes) [?c2, ?c1]))) =
      [asc ''Dialogue: 0,0:00:01.00,0:00:02.50,Default,,0,0,0,,First'',
       asc ''Dialogue: 0,0:00:05.00,0:00:07.00,Italic,,0,0,0,,Second'']" by code_simp
  have ws: "list_all isWhiteSpace []" "13 \<notin> set []" "list_all isWhiteSpace [10]" "13 \<notin> set [10::nat]"
    by (simp_all add: isWhiteSpace_def)
  have ne: "[?c2, ?c1] \<noteq> []" by simp
  from convertToASS_well_formed_cues[OF ne wf ws, of sampleFixes]
  show ?thesis unfolding doc Let_def recs by simp
qed

text \<open>
  C2 fails on the code. In \<open>/<i>.*<\/i>/i\<close> the dot does not match a line feed, so an
  italic tag that wraps a cue of two lines is not detected: the style stays \<open>Default\<close>
  and the tags stay in the text. The theorem evaluates the formatter at the cue text of
  the claim, for every table none of whose keys occurs in that text.
\<close>

theorem cleanAndFormatText_italic_across_lines:
  assumes "\<forall>(wrong, correct) \<in> set fixes.
             \<not> occursIn wrong (asc ''<i>Hello'' @ [10] @ asc ''World</i>'')"
  shows "cleanAndFormatText fixes (asc ''<i>Hello'' @ [10] @ asc ''World</i>'') =
           (asc ''<i>Hello'' @ [92, 78] @ asc ''World</i>'', asc ''Default'')"
proof -
  let ?t = "asc ''<i>Hello'' @ [10] @ asc ''World</i>''"
  have ne: "?t \<noteq> []" by (simp add: asc_def)
  have bom: "replaceAll (lit [65279]) [] ?t = ?t" by code_simp
  have fx: "fixEncodingArtifacts fixes ?t = ?t"
    using assms by (rule fixEncodingArtifacts_absent)
  have cs: "cleanSteps ?t = (asc ''<i>Hello'' @ [92, 78] @ asc ''World</i>'', asc ''Default'')"
    by code_simp
  have ne2: "asc ''<i>Hello'' @ [92, 78] @ asc ''World</i>'' \<noteq> []" by (simp add: asc_def)
  show ?thesis
    unfolding cleanAndFormatText_def Let_def bom fx cs using ne ne2 by simp
qed

theorem cleanAndFormatText_italic_across_lines_witness:
  "cleanAndFormatText sampleFixes (asc ''<i>Hello'' @ [10] @ asc ''World</i>'') =
     (asc ''<i>Hello'' @ [92, 78] @ asc ''World</i>'', asc ''Default'')"
proof -
  have "\<forall>(wrong, correct) \<in> set sampleFixes.
          \<not> occursIn wrong (asc ''<i>Hello'' @ [10] @ asc ''World</i>'')"
    by (auto simp: sampleFixes_def asc_def intro!: not_occursIn_set)
  then show ?thesis by (rule cleanAndFormatText_italic_across_lines)
qed

text \<open>
  C3, as amended. For an empty or white-space-only document the File Parser raises its
  empty-file error and catches it itself, returning an empty list, and \<open>convertToASS\<close>
  returns the failure result with the no-valid-subtitles error: the same result as for
  the document \<open>hello\<close>, which is not empty and has no block that parses.
\<close>

theorem convertToASS_empty_document:
  assumes "trim doc = []"
  shows "parseSRTFile_try fixes doc = Inl EmptyFile \<and>
         convertToASS fixes doc = noValidSubtitles \<and>
         convertToASS fixes (asc ''hello'') = noValidSubtitles"
proof -
  have 1: "parseSRTFile_try fixes doc = Inl EmptyFile"
    using assms by (simp add: parseSRTFile_try_def)
  then have 2: "convertToASS fixes doc = noValidSubtitles"
    by (simp add: convertToASS_no_subtitles parseSRTFile_def)
  have bl: "srtBlocks (asc ''hello'') = [asc ''hello'']" by code_simp
  have tr: "trim (asc ''hello'') = asc ''hello''" by code_simp
  have ln: "filter (\<lambda>line. line \<noteq> []) (map trim (split (lit [10]) (asc ''hello''))) = [asc ''hello'']"
    by code_simp
  have "parseSRTBlock fixes (asc ''hello'') = None"
    by (simp add: parseSRTBlock_def tr ln)
  then have "parseSRTFile fixes (asc ''hello'') = []"
    by (simp add: parseSRTFile_def parseSRTFile_try_def bl tr sortSubtitles_def)
  then have 3: "convertToASS fixes (asc ''hello'') = noValidSubtitles"
    by (rule convertToASS_no_subtitles)
  show ?thesis using 1 2 3 by simp
qed

theorem convertToASS_empty_document_witness:
  "parseSRTFile_try sampleFixes [32, 10, 32] = Inl EmptyFile \<and>
   convertToASS sampleFixes [32, 10, 32] = noValidSubtitles"
proof -
  have "trim [32, 10, 32] = []" by code_simp
  then show ?thesis
    using convertToASS_empty_document[of "[32, 10, 32]" sampleFixes] by simp
qed

text \<open>
  C3 as stated fails: the error of the empty document is the error of a document that is
  not empty and has no block that parses.
\<close>

theorem convertToASS_empty_error_counterexample:
  "error (convertToASS sampleFixes []) = error (convertToASS sampleFixes (asc ''hello'')) \<and>
   error (convertToASS sampleFixes []) = Some (asc ''No valid subtitles found in the SRT file'')"
  by code_simp

text \<open>
  C4 fails on the code. \<open>Number.parseInt\<close> returns NaN instead of throwing, so the
  fallback to the first run of digits is never reached: a block whose first line is
  \<open>abc 12\<close> gets the index NaN, not 12, and a block whose first line \<open>abc\<close> holds no
  digit is not rejected but parsed with the index NaN.
\<close>

theorem parseSRTBlock_index_not_a_number:
  "map_option number
     (parseSRTBlock fixes (asc ''abc 12'' @ [10] @ asc ''00:00:01,000 --> 00:00:02,000'' @ [10] @ asc ''Hello''))
     = Some None \<and>
   map_option number
     (parseSRTBlock fixes (asc ''abc'' @ [10] @ asc ''00:00:01,000 --> 00:00:02,000'' @ [10] @ asc ''Hello''))
     = Some None"
proof -
  let ?b1 = "asc ''abc 12'' @ [10] @ asc ''00:00:01,000 --> 00:00:02,000'' @ [10] @ asc ''Hello''"
  let ?b2 = "asc ''abc'' @ [10] @ asc ''00:00:01,000 --> 00:00:02,000'' @ [10] @ asc ''Hello''"
  let ?tl = "asc ''00:00:01,000 --> 00:00:02,000''"
  have l1: "filter (\<lambda>line. line \<noteq> []) (map trim (split (lit [10]) (trim ?b1))) =
      [asc ''abc 12'', ?tl, asc ''Hello'']" by code_simp
  have l2: "filter (\<lambda>line. line \<noteq> []) (map trim (split (lit [10]) (trim ?b2))) =
      [asc ''abc'', ?tl, asc ''Hello'']" by code_simp
  have tm: "firstTimeMatch timePatterns ?tl = Some (asc ''00:00:01,000'', asc ''00:00:02,000'')"
    by code_simp
  have n1: "parseInt (asc ''abc 12'') = None" by code_simp
  have n2: "parseInt (asc ''abc'') = None" by code_simp
  have 1: "map_option number (parseSRTBlock fixes ?b1) = Some None"
    unfolding parseSRTBlock_def l1 by (simp add: tm n1 Let_def split: prod.splits)
  have 2: "map_option number (parseSRTBlock fixes ?b2) = Some None"
    unfolding parseSRTBlock_def l2 by (simp add: tm n2 Let_def split: prod.splits)
  show ?thesis using 1 2 by simp
qed

theorem parseSRTBlock_index_not_a_number_witness:
  "map_option number
     (parseSRTBlock sampleFixes (asc ''abc 12'' @ [10] @ asc ''00:00:01,000 --> 00:00:02,000'' @ [10] @ asc ''Hello''))
     = Some None"
  using parseSRTBlock_index_not_a_number[of sampleFixes] by simp

text \<open>
  C5. For every timestamp \<open>H:MM:SS,mmm\<close> (hours below 100, written with one or two
  digits; minutes and seconds below 60; milliseconds from 000 to 999), \<open>parseSRTTime\<close>
  yields \<open>H:MM:SS.cc\<close>, where the hours are written without a leading zero and \<open>cc\<close> is
  the milliseconds divided by 10 and rounded down.
\<close>

theorem parseSRTTime_truncates:
  assumes "h < 100" "m < 60" "s < 60" "ms < 1000"
      and "hs = natStr h \<or> hs = padStart 2 48 (natStr h)"
  shows "parseSRTTime (hs @ [58] @ padStart 2 48 (natStr m) @ [58] @ padStart 2 48 (natStr s) @
                       [44] @ padStart 3 48 (natStr ms)) =
         natStr h @ [58] @ padStart 2 48 (natStr m) @ [58] @ padStart 2 48 (natStr s) @
         [46] @ padStart 2 48 (natStr (ms div 10))"
proof -
  let ?m = "padStart 2 48 (natStr m)" and ?s = "padStart 2 48 (natStr s)"
  let ?f = "padStart 3 48 (natStr ms)"
  have d: "h div 10 < 10" "h mod 10 < 10" "m div 10 < 10" "m mod 10 < 10" "s div 10 < 10"
    "s mod 10 < 10" "ms div 100 < 10" "ms div 10 mod 10 < 10" "ms mod 10 < 10"
    using assms by auto
  have m: "?m = [48 + m div 10, 48 + m mod 10]" using assms by (simp add: pad2_natStr)
  have s: "?s = [48 + s div 10, 48 + s mod 10]" using assms by (simp add: pad2_natStr)
  have f: "?f = [48 + ms div 100, 48 + ms div 10 mod 10, 48 + ms mod 10]"
    using assms by (simp add: pad3_natStr)
  have hs: "(length hs = 1 \<or> length hs = 2) \<and> list_all isDigit hs \<and> digitsVal hs = h"
  proof (cases "hs = padStart 2 48 (natStr h)")
    case True
    then have "hs = [48 + h div 10, 48 + h mod 10]" using assms by (simp add: pad2_natStr)
    then show ?thesis using d by (simp add: isDigit_48 digitsVal2)
  next
    case False
    then have n: "hs = natStr h" using assms by blast
    show ?thesis
    proof (cases "h < 10")
      case True
      then show ?thesis using n by (simp add: natStr_small isDigit_48 digitsVal1)
    next
      case False
      then have "hs = [48 + h div 10, 48 + h mod 10]" using n assms by (simp add: natStr_two)
      then show ?thesis using d by (simp add: isDigit_48 digitsVal2)
    qed
  qed
  have ok: "isTimestamp hs ?m ?s 44 ?f"
    using hs d unfolding m s f by (simp add: isTimestamp_def isDigit_48)
  have vm: "digitsVal ?m = m" unfolding m by (simp add: digitsVal2)
  have vs: "digitsVal ?s = s" unfolding s by (simp add: digitsVal2)
  have c1: "ms div 100 = ms div 10 div 10" by (simp add: div_mult2_eq[symmetric])
  have c2: "10 * (ms div 10 div 10) + ms div 10 mod 10 = ms div 10" by (rule mult_div_mod_eq)
  have c3: "10 * (ms div 10) + ms mod 10 = ms" by (rule mult_div_mod_eq)
  have "100 * (ms div 100) + 10 * (ms div 10 mod 10) + ms mod 10 = ms"
    using c1 c2 c3 by linarith
  then have vf: "centis ?f = ms div 10"
    unfolding f by (simp add: centis_def padEnd_def digitsVal3)
  have "parseSRTTime ([] @ timestamp hs ?m ?s 44 ?f @ []) =
          (if digitsVal ?m < 60 \<and> digitsVal ?s < 60
           then assTime hs ?m ?s (take 3 (?f @ takeWhile isDigit []))
           else asc ''0:00:00.00'')"
    by (rule parseSRTTime_embedded[OF ok]) simp
  moreover have "take 3 (?f @ takeWhile isDigit []) = ?f" unfolding f by simp
  moreover have "natStr (digitsVal ?m) = natStr m" "natStr (digitsVal ?s) = natStr s"
    using vm vs by simp_all
  ultimately show ?thesis
    using assms hs vf vm vs by (simp add: timestamp_def assTime_def)
qed

theorem parseSRTTime_truncates_witness:
  "parseSRTTime (asc ''00:01:23,456'') = asc ''0:01:23.45''"
  using parseSRTTime_truncates[of 0 1 23 456 "padStart 2 48 (natStr 0)"]
  by (simp add: padStart_def natStr.simps asc_def)



text \<open>
  C7, as amended. For every input string that is not empty, the Text Formatter returns a
  non-empty text: the cleaned text when that is not empty; otherwise the original text,
  trimmed and with every run of white space collapsed to one space, when that is not
  empty; otherwise the placeholder \<open>[Empty subtitle]\<close>.
\<close>

theorem cleanAndFormatText_nonempty:
  assumes "text0 \<noteq> []"
  shows "fst (cleanAndFormatText fixes text0) \<noteq> [] \<and>
         fst (cleanAndFormatText fixes text0) =
           (let cleaned = fst (cleanSteps (fixEncodingArtifacts fixes (replaceAll (lit [65279]) [] text0)))
            in if cleaned \<noteq> [] then cleaned
               else if collapsedOriginal text0 \<noteq> [] then collapsedOriginal text0
               else asc ''[Empty subtitle]'')"
  using assms
  by (auto simp: cleanAndFormatText_def Let_def asc_def split: prod.splits)

theorem cleanAndFormatText_nonempty_witness:
  "fst (cleanAndFormatText sampleFixes (asc ''<b> </b>'')) = asc ''<b> </b>'' \<and>
   fst (cleanAndFormatText sampleFixes (asc ''   '')) = asc ''[Empty subtitle]''"
proof -
  have 1: "asc ''<b> </b>'' \<noteq> []" and 2: "asc ''   '' \<noteq> []" by (simp_all add: asc_def)
  have v1: "(let cleaned = fst (cleanSteps (fixEncodingArtifacts sampleFixes (replaceAll (lit [65279]) [] (asc ''<b> </b>''))))
            in if cleaned \<noteq> [] then cleaned
               else if collapsedOriginal (asc ''<b> </b>'') \<noteq> [] then collapsedOriginal (asc ''<b> </b>'')
               else asc ''[Empty subtitle]'') = asc ''<b> </b>''"
    by code_simp
  have v2: "(let cleaned = fst (cleanSteps (fixEncodingArtifacts sampleFixes (replaceAll (lit [65279]) [] (asc ''   ''))))
            in if cleaned \<noteq> [] then cleaned
               else if collapsedOriginal (asc ''   '') \<noteq> [] then collapsedOriginal (asc ''   '')
               else asc ''[Empty subtitle]'') = asc ''[Empty subtitle]''"
    by code_simp
  show ?thesis
    using cleanAndFormatText_nonempty[OF 1, of sampleFixes] cleanAndFormatText_nonempty[OF 2, of sampleFixes]
    unfolding v1 v2 by simp
qed

text \<open>
  C7 as stated fails at the empty string, which the guard on the first line of the
  formatter returns as it is.
\<close>

theorem cleanAndFormatText_empty_counterexample:
  "fst (cleanAndFormatText sampleFixes []) = []"
  by (simp add: cleanAndFormatText_def)

text \<open>
  C8. For every input string in which no parseable timestamp is found, \<open>parseSRTTime\<close>
  returns the sentinel \<open>0:00:00.00\<close>. "No parseable timestamp" is: every occurrence of
  the timestamp form in the input (there may be none) has minutes or seconds of 60 or
  more. \<open>parseSRTTime\<close> is a total function, the thrown errors being values inside it, so
  no exception escapes.
\<close>

theorem parseSRTTime_sentinel:
  assumes "\<forall>a h m s sep f b.
             str = a @ timestamp h m s sep f @ b \<and> isTimestamp h m s sep f \<longrightarrow>
             60 \<le> digitsVal m \<or> 60 \<le> digitsVal s"
  shows "parseSRTTime str = asc ''0:00:00.00''"
proof (cases "timePatternMatch (replaceFirst 44 46 (trim str))")
  case None
  then show ?thesis by (simp add: parseSRTTime_def parseSRTTime_try_None)
next
  case (Some g)
  obtain h m s f where g: "g = (h, m, s, f)" by (cases g) auto
  have "timePatternMatch (trim str) = Some (h, m, s, f)"
    using Some g by (simp add: timePatternMatch_replaceFirst)
  from timePatternMatch_sound[OF this] obtain a sep post where
    ok: "isTimestamp h m s sep f" and tr: "trim str = a @ timestamp h m s sep f @ post" by blast
  obtain wa wb where "str = wa @ trim str @ wb" using trim_decompose by blast
  then have "str = (wa @ a) @ timestamp h m s sep f @ (post @ wb)" using tr by simp
  with assms ok have "60 \<le> digitsVal m \<or> 60 \<le> digitsVal s" by blast
  then have "parseSRTTime_try str = Inl InvalidTimeValues"
    using parseSRTTime_try_match[OF Some[unfolded g] ok] by auto
  then show ?thesis by (simp add: parseSRTTime_def)
qed

theorem parseSRTTime_sentinel_witness:
  "parseSRTTime (asc ''not-a-time'') = asc ''0:00:00.00''"
proof -
  have no: "\<And>a h m s sep f b. asc ''not-a-time'' \<noteq> a @ timestamp h m s sep f @ b"
  proof
    fix a h m s sep f b
    assume "asc ''not-a-time'' = a @ timestamp h m s sep f @ b"
    then have "set (asc ''not-a-time'') = set (a @ timestamp h m s sep f @ b)" by simp
    moreover have "58 \<in> set (a @ timestamp h m s sep f @ b)" by (simp add: timestamp_def)
    ultimately have "58 \<in> set (asc ''not-a-time'')" by simp
    then show False by (simp add: asc_def)
  qed
  then have hyp: "\<forall>a h m s sep f b.
      asc ''not-a-time'' = a @ timestamp h m s sep f @ b \<and> isTimestamp h m s sep f \<longrightarrow>
      60 \<le> digitsVal m \<or> 60 \<le> digitsVal s" by blast
  show ?thesis using parseSRTTime_sentinel[OF hyp] .
qed

text \<open>
  C9. For every text that contains none of the corruption patterns of the substitution
  table, the Encoding Fixer returns the text unchanged, and applying it twice yields the
  same as applying it once. The table is any table of literal patterns.
\<close>

theorem fixEncodingArtifacts_idempotent:
  assumes "\<forall>(wrong, correct) \<in> set fixes. \<not> occursIn wrong text"
  shows "fixEncodingArtifacts fixes text = text \<and>
         fixEncodingArtifacts fixes (fixEncodingArtifacts fixes text) = fixEncodingArtifacts fixes text"
  using assms by (simp add: fixEncodingArtifacts_absent)

theorem fixEncodingArtifacts_idempotent_witness:
  "fixEncodingArtifacts sampleFixes (asc ''Xin chao'') = asc ''Xin chao'' \<and>
   fixEncodingArtifacts sampleFixes (fixEncodingArtifacts sampleFixes (asc ''Xin chao'')) =
     fixEncodingArtifacts sampleFixes (asc ''Xin chao'')"
proof -
  have "\<forall>(wrong, correct) \<in> set sampleFixes. \<not> occursIn wrong (asc ''Xin chao'')"
    by (auto simp: sampleFixes_def asc_def intro!: not_occursIn_set)
  then show ?thesis by (rule fixEncodingArtifacts_idempotent)
qed

text \<open>
  C10, as amended. The pattern is not anchored, and the leftmost occurrence of the
  timestamp form decides, whatever its ranges. When the input is \<open>pre\<close>, a timestamp and
  \<open>post\<close>, and no occurrence of the form begins before that timestamp, then
  \<open>parseSRTTime\<close> returns the \<open>H:MM:SS.cc\<close> value of that timestamp if its minutes and
  seconds are below 60, and the sentinel otherwise; the fraction read is the first three
  digits of the digit run behind the separator. The characters around the timestamp do
  not matter.
\<close>

theorem parseSRTTime_first_occurrence:
  assumes "isTimestamp h m s sep f"
      and "\<forall>a h' m' s' sep' f' b.
             pre @ timestamp h m s sep f @ post = a @ timestamp h' m' s' sep' f' @ b \<and>
             isTimestamp h' m' s' sep' f' \<longrightarrow> length pre \<le> length a"
  shows "parseSRTTime (pre @ timestamp h m s sep f @ post) =
           (if digitsVal m < 60 \<and> digitsVal s < 60
            then assTime h m s (take 3 (f @ takeWhile isDigit post))
            else asc ''0:00:00.00'')"
  using assms by (rule parseSRTTime_embedded)

theorem parseSRTTime_first_occurrence_witness:
  "parseSRTTime (asc ''  x 1:01:02.3456 y'') = asc ''1:01:02.34''"
proof -
  let ?pre = "asc ''  x ''" and ?post = "asc ''6 y''"
  let ?h = "asc ''1''" and ?m = "asc ''01''" and ?s = "asc ''02''" and ?f = "asc ''345''"
  have ok: "isTimestamp ?h ?m ?s 46 ?f"
    by (simp add: isTimestamp_def asc_def isDigit_def)
  have nd: "list_all (\<lambda>c. \<not> isDigit c) ?pre"
    by (simp add: asc_def isDigit_def)
  have first: "\<forall>a h' m' s' sep' f' b.
      ?pre @ timestamp ?h ?m ?s 46 ?f @ ?post = a @ timestamp h' m' s' sep' f' @ b \<and>
      isTimestamp h' m' s' sep' f' \<longrightarrow> length ?pre \<le> length a"
    using first_occurrence_no_digits[OF nd] by blast
  have str: "?pre @ timestamp ?h ?m ?s 46 ?f @ ?post = asc ''  x 1:01:02.3456 y''"
    by (simp add: asc_def timestamp_def)
  have val: "(if digitsVal ?m < 60 \<and> digitsVal ?s < 60
            then assTime ?h ?m ?s (take 3 (?f @ takeWhile isDigit ?post))
            else asc ''0:00:00.00'') = asc ''1:01:02.34''"
    by code_simp
  show ?thesis
    using parseSRTTime_first_occurrence[OF ok first] unfolding str val .
qed

text \<open>
  C10 as stated fails: the input below contains the valid timestamp \<open>0:01:02,345\<close>, but
  an occurrence of the form with 99 minutes begins before it, and the result is the
  sentinel.
\<close>

theorem parseSRTTime_earlier_invalid_counterexample:
  "parseSRTTime (asc ''0:99:00,0 0:01:02,345'') = asc ''0:00:00.00'' \<and>
   asc ''0:99:00,0 0:01:02,345'' =
     asc ''0:99:00,0 '' @ timestamp (asc ''0'') (asc ''01'') (asc ''02'') 44 (asc ''345'') @ [] \<and>
   isTimestamp (asc ''0'') (asc ''01'') (asc ''02'') 44 (asc ''345'') \<and>
   digitsVal (asc ''01'') < 60 \<and> digitsVal (asc ''02'') < 60"
  by code_simp

end
